theory Spec2Isabelle
  imports Complex_Main
begin

section \<open>chess\_with\_elysia.cpp: pieces, squares and moves\<close>

text \<open>
  A piece is a \<^verbatim>\<open>char\<close>; the board is one \<^verbatim>\<open>std::string\<close> of 144 cells (12 rows of 12,
  the 8x8 board with a border two cells thick) followed by four characters of flags.
  Rows and columns are \<^verbatim>\<open>int32_t\<close> in the source; every value computed from them below
  stays far inside the 32-bit range, so they are integers here.
\<close>

datatype Side = upper | down | extra

datatype Type = pawn | rook | knight | bishop | queen | king | empty | out

datatype MoveType = invalid | normal | en_passant | long_castling | short_castling
  | pawn_move_and_promote | pawn_2_steps

type_synonym Piece = char

definition P_UP :: Piece where "P_UP = CHR ''P''"
definition P_UR :: Piece where "P_UR = CHR ''R''"
definition P_UN :: Piece where "P_UN = CHR ''N''"
definition P_UB :: Piece where "P_UB = CHR ''B''"
definition P_UQ :: Piece where "P_UQ = CHR ''Q''"
definition P_UK :: Piece where "P_UK = CHR ''K''"
definition P_DP :: Piece where "P_DP = CHR ''p''"
definition P_DR :: Piece where "P_DR = CHR ''r''"
definition P_DN :: Piece where "P_DN = CHR ''n''"
definition P_DB :: Piece where "P_DB = CHR ''b''"
definition P_DQ :: Piece where "P_DQ = CHR ''q''"
definition P_DK :: Piece where "P_DK = CHR ''k''"
definition P_EE :: Piece where "P_EE = CHR ''.''"
definition P_EO :: Piece where "P_EO = CHR ''#''"

lemmas piece_defs = P_UP_def P_UR_def P_UN_def P_UB_def P_UQ_def P_UK_def
  P_DP_def P_DR_def P_DN_def P_DB_def P_DQ_def P_DK_def P_EE_def P_EO_def

record Pos =
  row :: int
  col :: int

record Move =
  from_pos :: Pos
  to_pos :: Pos
  moveType :: MoveType
  promoteP :: Piece

text \<open>The three constructors of \<^verbatim>\<open>Move\<close>; the fields \<^verbatim>\<open>from\<close> and \<^verbatim>\<open>to\<close> are
  \<open>from_pos\<close> and \<open>to_pos\<close> here.\<close>

definition Move_default :: Move where
  "Move_default = \<lparr>from_pos = \<lparr>row = 0, col = 0\<rparr>, to_pos = \<lparr>row = 0, col = 0\<rparr>,
     moveType = invalid, promoteP = P_EO\<rparr>"

definition Move3 :: "Pos \<Rightarrow> Pos \<Rightarrow> MoveType \<Rightarrow> Move" where
  "Move3 f t ty = \<lparr>from_pos = f, to_pos = t, moveType = ty, promoteP = P_EO\<rparr>"

definition Move4 :: "Pos \<Rightarrow> Pos \<Rightarrow> MoveType \<Rightarrow> Piece \<Rightarrow> Move" where
  "Move4 f t ty p = \<lparr>from_pos = f, to_pos = t, moveType = ty, promoteP = p\<rparr>"

definition piece_type :: "Piece \<Rightarrow> Type" where
  "piece_type p =
     (if p = P_UP \<or> p = P_DP then pawn
      else if p = P_UR \<or> p = P_DR then rook
      else if p = P_UN \<or> p = P_DN then knight
      else if p = P_UB \<or> p = P_DB then bishop
      else if p = P_UQ \<or> p = P_DQ then queen
      else if p = P_UK \<or> p = P_DK then king
      else if p = P_EE then empty
      else out)"

definition piece_side :: "Piece \<Rightarrow> Side" where
  "piece_side p =
     (if p = P_UP \<or> p = P_UR \<or> p = P_UN \<or> p = P_UB \<or> p = P_UQ \<or> p = P_UK then upper
      else if p = P_DP \<or> p = P_DR \<or> p = P_DN \<or> p = P_DB \<or> p = P_DQ \<or> p = P_DK then down
      else extra)"

section \<open>Board\<close>

record Board =
  data :: string
  history :: "string list"

definition width :: int where "width = 12"
definition line_begin :: int where "line_begin = 2"
definition line_end :: int where "line_end = 9"
definition upper_pawn_begin_row :: int where "upper_pawn_begin_row = 3"
definition upper_pawn_promote_row :: int where "upper_pawn_promote_row = 9"
definition down_pawn_begin_row :: int where "down_pawn_begin_row = 8"
definition down_pawn_promote_row :: int where "down_pawn_promote_row = 2"

definition upper_king_start_pos :: nat where "upper_king_start_pos = 30"
definition down_king_start_pos :: nat where "down_king_start_pos = 114"
definition upper_castle_flag_pos :: nat where "upper_castle_flag_pos = 144"
definition down_castle_flag_pos :: nat where "down_castle_flag_pos = 145"
definition en_passant_row_pos :: nat where "en_passant_row_pos = 146"
definition en_passant_col_pos :: nat where "en_passant_col_pos = 147"

text \<open>
  \<^verbatim>\<open>data[r * width + c]\<close>. The source indexes the string without a bounds check, and an
  index outside the string is undefined behaviour there. \<open>in_string\<close> says that the
  index of a square lies inside the string; the theorems below are about squares for
  which it does, and the ray scans of the move generator stop where it does not.
\<close>

definition idx :: "int \<Rightarrow> int \<Rightarrow> nat" where
  "idx r c = nat (r * width + c)"

definition in_string :: "Board \<Rightarrow> int \<Rightarrow> int \<Rightarrow> bool" where
  "in_string b r c \<longleftrightarrow> 0 \<le> r * width + c \<and> r * width + c < int (length (data b))"

definition get :: "Board \<Rightarrow> int \<Rightarrow> int \<Rightarrow> Piece" where
  "get b r c = data b ! idx r c"

definition get_pos :: "Board \<Rightarrow> Pos \<Rightarrow> Piece" where
  "get_pos b pos = get b (row pos) (col pos)"

definition set_cell :: "Board \<Rightarrow> int \<Rightarrow> int \<Rightarrow> Piece \<Rightarrow> Board" where
  "set_cell b r c p = b\<lparr>data := (data b)[idx r c := p]\<rparr>"

definition set_pos :: "Board \<Rightarrow> Pos \<Rightarrow> Piece \<Rightarrow> Board" where
  "set_pos b pos p = set_cell b (row pos) (col pos) p"

definition get_upper_castle_flag :: "Board \<Rightarrow> bool" where
  "get_upper_castle_flag b \<longleftrightarrow> data b ! upper_castle_flag_pos \<noteq> CHR ''0''"

definition get_down_castle_flag :: "Board \<Rightarrow> bool" where
  "get_down_castle_flag b \<longleftrightarrow> data b ! down_castle_flag_pos \<noteq> CHR ''0''"

definition set_upper_castle_flag :: "Board \<Rightarrow> bool \<Rightarrow> Board" where
  "set_upper_castle_flag b flag =
     b\<lparr>data := (data b)[upper_castle_flag_pos := (if flag then CHR ''1'' else CHR ''0'')]\<rparr>"

definition set_down_castle_flag :: "Board \<Rightarrow> bool \<Rightarrow> Board" where
  "set_down_castle_flag b flag =
     b\<lparr>data := (data b)[down_castle_flag_pos := (if flag then CHR ''1'' else CHR ''0'')]\<rparr>"

text \<open>\<^verbatim>\<open>data[en_passant_row_pos] = r + '0'\<close>: the sum is an \<^verbatim>\<open>int\<close>, stored into a
  \<^verbatim>\<open>char\<close> (its low eight bits).\<close>

definition set_en_passant_pos :: "Board \<Rightarrow> int \<Rightarrow> int \<Rightarrow> Board" where
  "set_en_passant_pos b r c =
     b\<lparr>data := (data b)[en_passant_row_pos := char_of (r + 48),
                         en_passant_col_pos := char_of (c + 48)]\<rparr>"

definition reset_en_passant_pos :: "Board \<Rightarrow> Board" where
  "reset_en_passant_pos b = set_en_passant_pos b 0 0"

definition reset :: Board where
  "reset = \<lparr>data =
      ''############'' @
      ''############'' @
      ''##RNBQKBNR##'' @
      ''##PPPPPPPP##'' @
      ''##........##'' @
      ''##........##'' @
      ''##........##'' @
      ''##........##'' @
      ''##pppppppp##'' @
      ''##rnbqkbnr##'' @
      ''############'' @
      ''############'' @
      ''1100'',
    history = []\<rparr>"

text \<open>A \<^verbatim>\<open>string_view\<close> of \<open>n\<close> characters starting at offset \<open>i\<close> of the string.\<close>

definition view :: "Board \<Rightarrow> nat \<Rightarrow> nat \<Rightarrow> string" where
  "view b i n = take n (drop i (data b))"

definition can_upper_short_castle :: "Board \<Rightarrow> bool" where
  "can_upper_short_castle b =
     (if get_upper_castle_flag b then view b (upper_king_start_pos + 1) 3 = ''..R'' else False)"

definition can_upper_long_castle :: "Board \<Rightarrow> bool" where
  "can_upper_long_castle b =
     (if get_upper_castle_flag b then view b (upper_king_start_pos - 4) 4 = ''R...'' else False)"

definition can_down_short_castle :: "Board \<Rightarrow> bool" where
  "can_down_short_castle b =
     (if get_down_castle_flag b then view b (down_king_start_pos + 1) 3 = ''..r'' else False)"

definition can_down_long_castle :: "Board \<Rightarrow> bool" where
  "can_down_long_castle b =
     (if get_down_castle_flag b then view b (down_king_start_pos - 4) 4 = ''r...'' else False)"

definition has_chance_to_do_en_passant :: "Board \<Rightarrow> bool" where
  "has_chance_to_do_en_passant b \<longleftrightarrow>
     data b ! en_passant_row_pos \<noteq> CHR ''0'' \<and> data b ! en_passant_col_pos \<noteq> CHR ''0''"

text \<open>\<^verbatim>\<open>line_begin + data[en_passant_row_pos] - '0'\<close>; the characters stored there are
  ASCII, read here as their code.\<close>

definition en_passant_pos :: "Board \<Rightarrow> Pos" where
  "en_passant_pos b =
     \<lparr>row = line_begin + of_char (data b ! en_passant_row_pos) - 48,
      col = line_begin + of_char (data b ! en_passant_col_pos) - 48\<rparr>"

text \<open>\<^verbatim>\<open>Board::move\<close>, the board passed and returned.\<close>

definition move :: "Board \<Rightarrow> Move \<Rightarrow> Board" where
  "move b mv =
     (if moveType mv = invalid then b
      else
        let b0 = b\<lparr>history := history b @ [data b]\<rparr>;
            fromP = get_pos b0 (from_pos mv);
            b1 = reset_en_passant_pos b0
        in if moveType mv = pawn_move_and_promote
           then set_pos (set_pos b1 (to_pos mv) (promoteP mv)) (from_pos mv) P_EE
           else
             let b2 = set_pos b1 (to_pos mv) fromP;
                 b3 = set_pos b2 (from_pos mv) P_EE;
                 b4 = (if fromP = P_UK then set_upper_castle_flag b3 False
                       else if fromP = P_DK then set_down_castle_flag b3 False
                       else b3);
                 fr = row (from_pos mv);
                 fc = col (from_pos mv)
             in if moveType mv = long_castling
                then set_cell (set_cell b4 fr (fc - 1) (get b4 fr (fc - 4))) fr (fc - 4) P_EE
                else if moveType mv = short_castling
                then set_cell (set_cell b4 fr (fc + 1) (get b4 fr (fc + 3))) fr (fc + 3) P_EE
                else if moveType mv = en_passant
                then set_cell b4 fr (col (to_pos mv)) P_EE
                else if moveType mv = pawn_2_steps
                then
                  let s = piece_side fromP;
                      reversePawn = (if s = upper then P_DP else P_UP)
                  in if get b4 fr (fc - 1) = reversePawn then set_en_passant_pos b4 fr (fc - 1)
                     else if get b4 fr (fc + 1) = reversePawn then set_en_passant_pos b4 fr (fc + 1)
                     else b4
                else b4)"

definition undo :: "Board \<Rightarrow> Board" where
  "undo b =
     (if history b \<noteq> [] then b\<lparr>data := last (history b), history := butlast (history b)\<rparr>
      else b)"

section \<open>MovesGen\<close>

text \<open>
  The generators append to the vector they are given; here they take the vector and
  return it extended. \<^verbatim>\<open>try_add_possible_move\<close> also returns its \<^verbatim>\<open>bool\<close>.
\<close>

definition try_add_possible_move :: "Board \<Rightarrow> Pos \<Rightarrow> Pos \<Rightarrow> Move list \<Rightarrow> bool \<times> Move list" where
  "try_add_possible_move board f t vec =
     (let fromP = get_pos board f; toP = get_pos board t
      in if toP = P_EO then (False, vec)
         else if toP = P_EE then (True, vec @ [Move3 f t normal])
         else (False, if piece_side fromP \<noteq> piece_side toP then vec @ [Move3 f t normal] else vec))"

text \<open>
  One loop of \<^verbatim>\<open>gen_crossing\<close> or \<^verbatim>\<open>gen_diagonal\<close>:
  \<^verbatim>\<open>for (rr = r0, cc = c0; try_add_possible_move(board, from, Pos{rr, cc}, vec); rr += dr, cc += dc);\<close>
  with \<open>(dr, dc)\<close> one of the eight directions. The loop ends at the first square that is
  not empty; on a board with its border that square comes before the scan leaves the
  grid. Where the scan would leave the string (undefined behaviour in the source) it
  ends here; a step \<open>(0, 0)\<close>, which no loop of the source has, ends it too.
\<close>

function scan :: "Board \<Rightarrow> Pos \<Rightarrow> int \<Rightarrow> int \<Rightarrow> int \<Rightarrow> int \<Rightarrow> Move list \<Rightarrow> Move list" where
  "scan board f rr cc dr dc vec =
     (if in_string board rr cc \<and> dr * width + dc \<noteq> 0
      then (case try_add_possible_move board f \<lparr>row = rr, col = cc\<rparr> vec of
              (True, vec') \<Rightarrow> scan board f (rr + dr) (cc + dc) dr dc vec'
            | (False, vec') \<Rightarrow> vec')
      else vec)"
  by pat_completeness auto
termination
proof (relation "measure (\<lambda>(board, f, rr, cc, dr, dc, vec).
      if 0 < dr * width + dc then nat (int (length (data board)) - (rr * width + cc))
      else nat (rr * width + cc + 1))")
  show "wf (measure (\<lambda>(board, f, rr, cc, dr, dc, vec).
      if 0 < dr * width + dc then nat (int (length (data board)) - (rr * width + cc))
      else nat (rr * width + cc + 1)))"
    by simp
next
  fix board :: Board and f :: Pos and rr cc dr dc :: int and vec :: "Move list"
    and x :: "bool \<times> Move list" and x1 :: bool and x2 :: "Move list"
  assume a: "in_string board rr cc \<and> dr * width + dc \<noteq> 0"
  have e: "(rr + dr) * width + (cc + dc) = (rr * width + cc) + (dr * width + dc)"
    by (simp add: algebra_simps)
  have "(if 0 < dr * width + dc
          then nat (int (length (data board)) - ((rr * width + cc) + (dr * width + dc)))
          else nat ((rr * width + cc) + (dr * width + dc) + 1))
      < (if 0 < dr * width + dc then nat (int (length (data board)) - (rr * width + cc))
         else nat (rr * width + cc + 1))"
    using a by (auto simp: in_string_def)
  then show "((board, f, rr + dr, cc + dc, dr, dc, x2), (board, f, rr, cc, dr, dc, vec))
      \<in> measure (\<lambda>(board, f, rr, cc, dr, dc, vec).
          if 0 < dr * width + dc then nat (int (length (data board)) - (rr * width + cc))
          else nat (rr * width + cc + 1))"
    by (simp only: in_measure prod.case e)
qed

declare scan.simps [simp del]

definition gen_crossing :: "Board \<Rightarrow> Pos \<Rightarrow> Move list \<Rightarrow> Move list" where
  "gen_crossing board f vec =
     (let v1 = scan board f (row f - 1) (col f) (- 1) 0 vec;
          v2 = scan board f (row f + 1) (col f) 1 0 v1;
          v3 = scan board f (row f) (col f - 1) 0 (- 1) v2
      in scan board f (row f) (col f + 1) 0 1 v3)"

definition gen_diagonal :: "Board \<Rightarrow> Pos \<Rightarrow> Move list \<Rightarrow> Move list" where
  "gen_diagonal board f vec =
     (let v1 = scan board f (row f - 1) (col f - 1) (- 1) (- 1) vec;
          v2 = scan board f (row f - 1) (col f + 1) (- 1) 1 v1;
          v3 = scan board f (row f + 1) (col f - 1) 1 (- 1) v2
      in scan board f (row f + 1) (col f + 1) 1 1 v3)"

definition pawn_add_and_check_promote :: "Side \<Rightarrow> Pos \<Rightarrow> Pos \<Rightarrow> bool \<Rightarrow> Move list \<Rightarrow> Move list" where
  "pawn_add_and_check_promote s f t canPromote vec =
     (if canPromote
      then vec @ [Move4 f t pawn_move_and_promote (if s = upper then P_UR else P_DR),
                  Move4 f t pawn_move_and_promote (if s = upper then P_UN else P_DN),
                  Move4 f t pawn_move_and_promote (if s = upper then P_UB else P_DB),
                  Move4 f t pawn_move_and_promote (if s = upper then P_UQ else P_DQ)]
      else vec @ [Move3 f t normal])"

text \<open>The body of the loop over the two capture columns of a pawn; \<open>dir\<close> is \<open>1\<close> for
  the upper side and \<open>- 1\<close> for the down side, \<open>prow\<close> the promotion row.\<close>

definition pawn_capture :: "Board \<Rightarrow> Side \<Rightarrow> Pos \<Rightarrow> int \<Rightarrow> int \<Rightarrow> int \<Rightarrow> Move list \<Rightarrow> Move list" where
  "pawn_capture board sd f dir prow c vec =
     (let p = get board (row f + dir) c; s = piece_side p
      in if s \<noteq> extra \<and> s \<noteq> piece_side (get_pos board f)
         then pawn_add_and_check_promote sd f \<lparr>row = row f + dir, col = c\<rparr> (row f + dir = prow) vec
         else vec)"

definition pawn_steps_upper :: "Board \<Rightarrow> Pos \<Rightarrow> Move list \<Rightarrow> Move list" where
  "pawn_steps_upper board f vec =
     (let v1 = (if has_chance_to_do_en_passant board
                then let ep = en_passant_pos board
                     in if row f = row ep \<and> (col f + 1 = col ep \<or> col f - 1 = col ep)
                        then vec @ [Move3 f \<lparr>row = row f + 1, col = col ep\<rparr> en_passant]
                        else vec
                else vec);
          v2 = (if get board (row f + 1) (col f) = P_EE
                then let v = (if row f = upper_pawn_begin_row \<and> get board (row f + 2) (col f) = P_EE
                              then v1 @ [Move3 f \<lparr>row = row f + 2, col = col f\<rparr> pawn_2_steps]
                              else v1)
                     in pawn_add_and_check_promote upper f \<lparr>row = row f + 1, col = col f\<rparr>
                          (row f + 1 = upper_pawn_promote_row) v
                else v1);
          v3 = pawn_capture board upper f 1 upper_pawn_promote_row (col f + 1) v2
      in pawn_capture board upper f 1 upper_pawn_promote_row (col f - 1) v3)"

definition pawn_steps_down :: "Board \<Rightarrow> Pos \<Rightarrow> Move list \<Rightarrow> Move list" where
  "pawn_steps_down board f vec =
     (let v1 = (if has_chance_to_do_en_passant board
                then let ep = en_passant_pos board
                     in if row f = row ep \<and> (col f + 1 = col ep \<or> col f - 1 = col ep)
                        then vec @ [Move3 f \<lparr>row = row f - 1, col = col ep\<rparr> en_passant]
                        else vec
                else vec);
          v2 = (if get board (row f - 1) (col f) = P_EE
                then let v = (if row f = down_pawn_begin_row \<and> get board (row f - 2) (col f) = P_EE
                              then v1 @ [Move3 f \<lparr>row = row f - 2, col = col f\<rparr> pawn_2_steps]
                              else v1)
                     in pawn_add_and_check_promote down f \<lparr>row = row f - 1, col = col f\<rparr>
                          (row f - 1 = down_pawn_promote_row) v
                else v1);
          v3 = pawn_capture board down f (- 1) down_pawn_promote_row (col f + 1) v2
      in pawn_capture board down f (- 1) down_pawn_promote_row (col f - 1) v3)"

definition pawn_steps :: "Board \<Rightarrow> Pos \<Rightarrow> Move list \<Rightarrow> Move list" where
  "pawn_steps board f vec =
     (if get_pos board f = P_UP then pawn_steps_upper board f vec else pawn_steps_down board f vec)"

definition rook_steps :: "Board \<Rightarrow> Pos \<Rightarrow> Move list \<Rightarrow> Move list" where
  "rook_steps board f vec = gen_crossing board f vec"

text \<open>A run of \<^verbatim>\<open>try_add_possible_move\<close> calls whose results are dropped, one call for
  each offset of the list, in its order.\<close>

fun try_offsets :: "Board \<Rightarrow> Pos \<Rightarrow> (int \<times> int) list \<Rightarrow> Move list \<Rightarrow> Move list" where
  "try_offsets board f [] vec = vec"
| "try_offsets board f ((dr, dc) # ds) vec =
     try_offsets board f ds
       (snd (try_add_possible_move board f \<lparr>row = row f + dr, col = col f + dc\<rparr> vec))"

definition knight_offsets :: "(int \<times> int) list" where
  "knight_offsets = [(2, - 1), (2, 1), (1, - 2), (1, 2), (- 1, - 2), (- 1, 2), (- 2, - 1), (- 2, 1)]"

definition knight_steps :: "Board \<Rightarrow> Pos \<Rightarrow> Move list \<Rightarrow> Move list" where
  "knight_steps board f vec = try_offsets board f knight_offsets vec"

definition bishop_steps :: "Board \<Rightarrow> Pos \<Rightarrow> Move list \<Rightarrow> Move list" where
  "bishop_steps board f vec = gen_diagonal board f vec"

definition queen_steps :: "Board \<Rightarrow> Pos \<Rightarrow> Move list \<Rightarrow> Move list" where
  "queen_steps board f vec = gen_diagonal board f (gen_crossing board f vec)"

definition king_offsets :: "(int \<times> int) list" where
  "king_offsets = [(- 1, - 1), (- 1, 0), (- 1, 1), (0, - 1), (0, 1), (1, - 1), (1, 0), (1, 1)]"

definition king_castling :: "Board \<Rightarrow> Pos \<Rightarrow> Move list \<Rightarrow> Move list" where
  "king_castling board f vec =
     (let fromP = get_pos board f; s = piece_side fromP
      in if s = upper
         then let v1 = (if can_upper_short_castle board
                        then vec @ [Move3 f \<lparr>row = row f, col = col f + 2\<rparr> short_castling] else vec)
              in if can_upper_long_castle board
                 then v1 @ [Move3 f \<lparr>row = row f, col = col f - 2\<rparr> long_castling] else v1
         else let v1 = (if can_down_short_castle board
                        then vec @ [Move3 f \<lparr>row = row f, col = col f + 2\<rparr> short_castling] else vec)
              in if can_down_long_castle board
                 then v1 @ [Move3 f \<lparr>row = row f, col = col f - 2\<rparr> long_castling] else v1)"

definition king_steps :: "Board \<Rightarrow> Pos \<Rightarrow> Move list \<Rightarrow> Move list" where
  "king_steps board f vec = king_castling board f (try_offsets board f king_offsets vec)"

text \<open>The body of the two nested loops of \<^verbatim>\<open>gen_moves_for_one_side\<close> at one cell, and
  the loops: rows 2 to 9, and in each row columns 2 to 9.\<close>

definition gen_cell :: "Board \<Rightarrow> Side \<Rightarrow> Move list \<Rightarrow> int \<times> int \<Rightarrow> Move list" where
  "gen_cell board s vec rc =
     (let r = fst rc; c = snd rc; p = get board r c
      in if piece_side p = s
         then (case piece_type p of
                 pawn \<Rightarrow> pawn_steps board \<lparr>row = r, col = c\<rparr> vec
               | rook \<Rightarrow> rook_steps board \<lparr>row = r, col = c\<rparr> vec
               | knight \<Rightarrow> knight_steps board \<lparr>row = r, col = c\<rparr> vec
               | bishop \<Rightarrow> bishop_steps board \<lparr>row = r, col = c\<rparr> vec
               | queen \<Rightarrow> queen_steps board \<lparr>row = r, col = c\<rparr> vec
               | king \<Rightarrow> king_steps board \<lparr>row = r, col = c\<rparr> vec
               | _ \<Rightarrow> vec)
         else vec)"

definition cells :: "(int \<times> int) list" where
  "cells = concat (map (\<lambda>r. map (\<lambda>c. (r, c)) [line_begin..line_end]) [line_begin..line_end])"

definition gen_moves_for_one_side :: "Board \<Rightarrow> Side \<Rightarrow> Move list" where
  "gen_moves_for_one_side board s = foldl (gen_cell board s) [] cells"

section \<open>BestMoveGen and BestMoveGenParallel\<close>

text \<open>
  Scores are \<^verbatim>\<open>float\<close> in the source. The search only compares them and takes their
  maximum and minimum, so they are real numbers here. \<^verbatim>\<open>ScoreEvaluator::evaluate\<close> adds
  entries of two tables that are loaded from files outside the sources; it is the
  parameter \<open>ev\<close> below, any function from boards to scores.
\<close>

definition LOWER_BOUND :: real where "LOWER_BOUND = - 5000000"
definition UPPER_BOUND :: real where "UPPER_BOUND = 5000000"

text \<open>
  The two loops of \<^verbatim>\<open>min_max\<close>. The board is the one object every call works on:
  each function takes it and returns it with its result. \<open>child\<close> is the recursive
  call on the board after the move.
\<close>

fun max_loop :: "(Board \<Rightarrow> real \<Rightarrow> real \<Rightarrow> real \<times> Board) \<Rightarrow> Board \<Rightarrow> Move list
    \<Rightarrow> real \<Rightarrow> real \<Rightarrow> real \<Rightarrow> real \<times> Board" where
  "max_loop child board [] bestVal alpha beta = (bestVal, board)"
| "max_loop child board (mv # moves) bestVal alpha beta =
     (let r = child (move board mv) alpha beta;
          bestVal' = max bestVal (fst r);
          board' = undo (snd r);
          alpha' = max alpha bestVal'
      in if alpha' \<ge> beta then (bestVal', board')
         else max_loop child board' moves bestVal' alpha' beta)"

fun min_loop :: "(Board \<Rightarrow> real \<Rightarrow> real \<Rightarrow> real \<times> Board) \<Rightarrow> Board \<Rightarrow> Move list
    \<Rightarrow> real \<Rightarrow> real \<Rightarrow> real \<Rightarrow> real \<times> Board" where
  "min_loop child board [] bestVal alpha beta = (bestVal, board)"
| "min_loop child board (mv # moves) bestVal alpha beta =
     (let r = child (move board mv) alpha beta;
          bestVal' = min bestVal (fst r);
          board' = undo (snd r);
          beta' = min beta bestVal'
      in if alpha \<ge> beta' then (bestVal', board')
         else min_loop child board' moves bestVal' alpha beta')"

text \<open>\<^verbatim>\<open>min_max\<close>, the same in both classes. \<^verbatim>\<open>thinkDepth\<close> counts down to \<open>0\<close>; a
  negative depth never reaches it, and depths are natural numbers here.\<close>

fun min_max :: "(Board \<Rightarrow> real) \<Rightarrow> Board \<Rightarrow> nat \<Rightarrow> real \<Rightarrow> real \<Rightarrow> bool \<Rightarrow> real \<times> Board" where
  "min_max ev board 0 alpha beta isMax = (ev board, board)"
| "min_max ev board (Suc d) alpha beta isMax =
     (if isMax
      then max_loop (\<lambda>b a be. min_max ev b d a be (\<not> isMax)) board
             (gen_moves_for_one_side board down) LOWER_BOUND alpha beta
      else min_loop (\<lambda>b a be. min_max ev b d a be (\<not> isMax)) board
             (gen_moves_for_one_side board upper) UPPER_BOUND alpha beta)"

text \<open>
  Plain minimax, as the specification words it: the recursion of \<^verbatim>\<open>min_max\<close> with the
  early exit removed. Without the exit \<^verbatim>\<open>alpha\<close> and \<^verbatim>\<open>beta\<close> are never read, so
  they are left out.
\<close>

fun max_loop_plain :: "(Board \<Rightarrow> real \<times> Board) \<Rightarrow> Board \<Rightarrow> Move list \<Rightarrow> real \<Rightarrow> real \<times> Board" where
  "max_loop_plain child board [] bestVal = (bestVal, board)"
| "max_loop_plain child board (mv # moves) bestVal =
     (let r = child (move board mv)
      in max_loop_plain child (undo (snd r)) moves (max bestVal (fst r)))"

fun min_loop_plain :: "(Board \<Rightarrow> real \<times> Board) \<Rightarrow> Board \<Rightarrow> Move list \<Rightarrow> real \<Rightarrow> real \<times> Board" where
  "min_loop_plain child board [] bestVal = (bestVal, board)"
| "min_loop_plain child board (mv # moves) bestVal =
     (let r = child (move board mv)
      in min_loop_plain child (undo (snd r)) moves (min bestVal (fst r)))"

fun minimax :: "(Board \<Rightarrow> real) \<Rightarrow> Board \<Rightarrow> nat \<Rightarrow> bool \<Rightarrow> real \<times> Board" where
  "minimax ev board 0 isMax = (ev board, board)"
| "minimax ev board (Suc d) isMax =
     (if isMax
      then max_loop_plain (\<lambda>b. minimax ev b d (\<not> isMax)) board
             (gen_moves_for_one_side board down) LOWER_BOUND
      else min_loop_plain (\<lambda>b. minimax ev b d (\<not> isMax)) board
             (gen_moves_for_one_side board upper) UPPER_BOUND)"

text \<open>
  The root loops, shared by \<^verbatim>\<open>BestMoveGen::gen_best_for\<close> and by each task of the
  parallel search: the state is the best move, its value and the board.
\<close>

fun root_min_loop :: "(Board \<Rightarrow> real \<times> Board) \<Rightarrow> Board \<Rightarrow> Move list \<Rightarrow> real \<Rightarrow> Move
    \<Rightarrow> Move \<times> real \<times> Board" where
  "root_min_loop child board [] minValue bestMove = (bestMove, minValue, board)"
| "root_min_loop child board (mv # moves) minValue bestMove =
     (let r = child (move board mv);
          val = fst r;
          board' = undo (snd r)
      in if val \<le> minValue then root_min_loop child board' moves val mv
         else root_min_loop child board' moves minValue bestMove)"

fun root_max_loop :: "(Board \<Rightarrow> real \<times> Board) \<Rightarrow> Board \<Rightarrow> Move list \<Rightarrow> real \<Rightarrow> Move
    \<Rightarrow> Move \<times> real \<times> Board" where
  "root_max_loop child board [] maxValue bestMove = (bestMove, maxValue, board)"
| "root_max_loop child board (mv # moves) maxValue bestMove =
     (let r = child (move board mv);
          val = fst r;
          board' = undo (snd r)
      in if val \<ge> maxValue then root_max_loop child board' moves val mv
         else root_max_loop child board' moves maxValue bestMove)"

text \<open>\<^verbatim>\<open>BestMoveGen::gen_best_for\<close>: the move returned and the board as it is left.\<close>

definition gen_best_for :: "(Board \<Rightarrow> real) \<Rightarrow> Board \<Rightarrow> Side \<Rightarrow> nat \<Rightarrow> Move \<times> Board" where
  "gen_best_for ev board s thinkDepth =
     (if s = upper
      then let r = root_min_loop (\<lambda>b. min_max ev b thinkDepth LOWER_BOUND UPPER_BOUND True) board
                     (gen_moves_for_one_side board upper) UPPER_BOUND Move_default
           in (fst r, snd (snd r))
      else let r = root_max_loop (\<lambda>b. min_max ev b thinkDepth LOWER_BOUND UPPER_BOUND False) board
                     (gen_moves_for_one_side board down) LOWER_BOUND Move_default
           in (fst r, snd (snd r)))"

text \<open>
  \<^verbatim>\<open>split_vector\<close>. Sizes are \<^verbatim>\<open>size_t\<close>, 64 bits here: \<^verbatim>\<open>chunkNum - 1\<close> wraps around
  when \<^verbatim>\<open>chunkNum\<close> is \<open>0\<close>. The loop \<^verbatim>\<open>for (counter = 0; counter != chunkNum - 1; ++counter)\<close>
  runs that many times; \<open>split_loop\<close> counts the iterations left. A span that does not
  lie inside the vector is undefined behaviour in the source and the error
  \<open>OutOfRange\<close> here.
\<close>

datatype error = OutOfRange | Uninitialized

fun split_loop :: "Move list \<Rightarrow> nat \<Rightarrow> nat \<Rightarrow> nat \<Rightarrow> Move list list \<Rightarrow> error + Move list list" where
  "split_loop vec chunkLength counter 0 result =
     Inr (result @ [drop (counter * chunkLength) vec])"
| "split_loop vec chunkLength counter (Suc n) result =
     (if counter * chunkLength + chunkLength \<le> length vec
      then split_loop vec chunkLength (counter + 1) n
             (result @ [take chunkLength (drop (counter * chunkLength) vec)])
      else Inl OutOfRange)"

definition split_vector :: "Move list \<Rightarrow> nat \<Rightarrow> error + Move list list" where
  "split_vector vec chunkNum =
     (let chunkLength = length vec div chunkNum;
          chunkNum' = (if chunkLength = 0 then length vec else chunkNum);
          chunkLength' = (if chunkLength = 0 then 1 else chunkLength)
      in split_loop vec chunkLength' 0 ((chunkNum' + 2 ^ 64 - 1) mod 2 ^ 64) [])"

definition split_chunk_num :: nat where "split_chunk_num = 32"

text \<open>
  The reduction over the results of the tasks: \<^verbatim>\<open>minIndex\<close> has no initial value in the
  source; it is \<open>None\<close> until the loop assigns it, and reading it unassigned is the
  error \<open>Uninitialized\<close>.
\<close>

fun min_index_loop :: "real list \<Rightarrow> nat \<Rightarrow> real \<Rightarrow> nat option \<Rightarrow> nat option" where
  "min_index_loop [] i minVal minIndex = minIndex"
| "min_index_loop (v # vs) i minVal minIndex =
     (if v \<le> minVal then min_index_loop vs (i + 1) v (Some i)
      else min_index_loop vs (i + 1) minVal minIndex)"

fun max_index_loop :: "real list \<Rightarrow> nat \<Rightarrow> real \<Rightarrow> nat option \<Rightarrow> nat option" where
  "max_index_loop [] i maxVal maxIndex = maxIndex"
| "max_index_loop (v # vs) i maxVal maxIndex =
     (if v \<ge> maxVal then max_index_loop vs (i + 1) v (Some i)
      else max_index_loop vs (i + 1) maxVal maxIndex)"

text \<open>
  One task of the parallel search: it copies the board, runs the root loop of the
  sequential search on its chunk and stores its best move and value. The tasks share
  no state that any of them writes, and the caller waits for all of them: the result
  is the list of their results, in the order of the chunks.
\<close>

definition task_upper :: "(Board \<Rightarrow> real) \<Rightarrow> Board \<Rightarrow> nat \<Rightarrow> Move list \<Rightarrow> Move \<times> real" where
  "task_upper ev board thinkDepth chunk =
     (let tempBoard = board;
          r = root_min_loop (\<lambda>b. min_max ev b thinkDepth LOWER_BOUND UPPER_BOUND True) tempBoard
                chunk UPPER_BOUND Move_default
      in (fst r, fst (snd r)))"

definition task_down :: "(Board \<Rightarrow> real) \<Rightarrow> Board \<Rightarrow> nat \<Rightarrow> Move list \<Rightarrow> Move \<times> real" where
  "task_down ev board thinkDepth chunk =
     (let tempBoard = board;
          r = root_max_loop (\<lambda>b. min_max ev b thinkDepth LOWER_BOUND UPPER_BOUND False) tempBoard
                chunk LOWER_BOUND Move_default
      in (fst r, fst (snd r)))"

text \<open>\<^verbatim>\<open>BestMoveGenParallel::gen_best_for\<close>; the board it is given is only read.\<close>

definition gen_best_for_parallel :: "(Board \<Rightarrow> real) \<Rightarrow> Board \<Rightarrow> Side \<Rightarrow> nat \<Rightarrow> error + Move" where
  "gen_best_for_parallel ev board s thinkDepth =
     (if s = upper
      then (case split_vector (gen_moves_for_one_side board upper) split_chunk_num of
              Inl e \<Rightarrow> Inl e
            | Inr splitMoves \<Rightarrow>
                let results = map (task_upper ev board thinkDepth) splitMoves;
                    bestMoves = map fst results;
                    bestValues = map snd results
                in (case min_index_loop bestValues 0 UPPER_BOUND None of
                      None \<Rightarrow> Inl Uninitialized
                    | Some minIndex \<Rightarrow> Inr (bestMoves ! minIndex)))
      else (case split_vector (gen_moves_for_one_side board down) split_chunk_num of
              Inl e \<Rightarrow> Inl e
            | Inr splitMoves \<Rightarrow>
                let results = map (task_down ev board thinkDepth) splitMoves;
                    bestMoves = map fst results;
                    bestValues = map snd results
                in (case max_index_loop bestValues 0 LOWER_BOUND None of
                      None \<Rightarrow> Inl Uninitialized
                    | Some maxIndex \<Rightarrow> Inr (bestMoves ! maxIndex))))"

section \<open>The second source file: ChessBoard and its move generator\<close>

text \<open>
  The older program in the repository keeps the board in an array of arrays and undoes
  a move from a record of it. Its names that clash with the ones above carry the suffix
  \<open>_cb\<close>. \<^verbatim>\<open>Pos\<close> is the same structure in both files.
\<close>

datatype Side_cb = PS_UPPER | PS_DOWN | PS_EXTRA

datatype Type_cb = PT_PAWN | PT_ROOK | PT_KNIGHT | PT_BISHOP | PT_QUEEN | PT_KING | PT_EMPTY | PT_OUT

datatype Piece_cb = P_UP_cb | P_UR_cb | P_UN_cb | P_UB_cb | P_UQ_cb | P_UK_cb
  | P_DP_cb | P_DR_cb | P_DN_cb | P_DB_cb | P_DQ_cb | P_DK_cb | P_EE_cb | P_EO_cb

datatype MoveType_cb = INVALID | NORMAL | EN_PASSANT | LONG_CASTLE | SHORT_CASTLE
  | GO_AND_PROMOTE | PAWN_2_STEPS

definition EDGE_LEN :: int where "EDGE_LEN = 12"
definition LINE_BEGIN :: int where "LINE_BEGIN = 2"
definition LINE_END :: int where "LINE_END = 10"
definition UPPER_PAWN_BEGIN_ROW :: int where "UPPER_PAWN_BEGIN_ROW = 3"
definition DOWN_PAWN_BEGIN_ROW :: int where "DOWN_PAWN_BEGIN_ROW = 8"
definition UPPER_PAWN_PROMOTE_ROW :: int where "UPPER_PAWN_PROMOTE_ROW = 9"
definition DOWN_PAWN_PROMOTE_ROW :: int where "DOWN_PAWN_PROMOTE_ROW = 2"

fun get_type :: "Piece_cb \<Rightarrow> Type_cb" where
  "get_type P_UP_cb = PT_PAWN" | "get_type P_DP_cb = PT_PAWN"
| "get_type P_UR_cb = PT_ROOK" | "get_type P_DR_cb = PT_ROOK"
| "get_type P_UN_cb = PT_KNIGHT" | "get_type P_DN_cb = PT_KNIGHT"
| "get_type P_UB_cb = PT_BISHOP" | "get_type P_DB_cb = PT_BISHOP"
| "get_type P_UQ_cb = PT_QUEEN" | "get_type P_DQ_cb = PT_QUEEN"
| "get_type P_UK_cb = PT_KING" | "get_type P_DK_cb = PT_KING"
| "get_type P_EE_cb = PT_EMPTY"
| "get_type P_EO_cb = PT_OUT"

fun get_side :: "Piece_cb \<Rightarrow> Side_cb" where
  "get_side P_UP_cb = PS_UPPER" | "get_side P_UR_cb = PS_UPPER" | "get_side P_UN_cb = PS_UPPER"
| "get_side P_UB_cb = PS_UPPER" | "get_side P_UQ_cb = PS_UPPER" | "get_side P_UK_cb = PS_UPPER"
| "get_side P_DP_cb = PS_DOWN" | "get_side P_DR_cb = PS_DOWN" | "get_side P_DN_cb = PS_DOWN"
| "get_side P_DB_cb = PS_DOWN" | "get_side P_DQ_cb = PS_DOWN" | "get_side P_DK_cb = PS_DOWN"
| "get_side P_EE_cb = PS_EXTRA"
| "get_side P_EO_cb = PS_EXTRA"

record Move_cb =
  from_cb :: Pos
  to_cb :: Pos
  moveType_cb :: MoveType_cb

definition Move3_cb :: "Pos \<Rightarrow> Pos \<Rightarrow> MoveType_cb \<Rightarrow> Move_cb" where
  "Move3_cb f t ty = \<lparr>from_cb = f, to_cb = t, moveType_cb = ty\<rparr>"

record HistoryNode =
  hist_from :: Pos
  hist_to :: Pos
  hist_moveType :: MoveType_cb
  hist_fromP :: Piece_cb
  hist_toP :: Piece_cb

record ChessBoard =
  data_cb :: "Piece_cb list list"
  history_cb :: "HistoryNode list"
  canUpperCastle :: bool
  canDownCastle :: bool
  enPassantPos :: Pos

text \<open>\<^verbatim>\<open>data[r][c]\<close> on the 12 by 12 array; an index outside it is undefined behaviour
  in the source, and \<open>in_grid\<close> says that a square lies on the array.\<close>

definition in_grid :: "int \<Rightarrow> int \<Rightarrow> bool" where
  "in_grid r c \<longleftrightarrow> 0 \<le> r \<and> r < EDGE_LEN \<and> 0 \<le> c \<and> c < EDGE_LEN"

definition get_cb :: "ChessBoard \<Rightarrow> int \<Rightarrow> int \<Rightarrow> Piece_cb" where
  "get_cb cb r c = data_cb cb ! nat r ! nat c"

definition get_pos_cb :: "ChessBoard \<Rightarrow> Pos \<Rightarrow> Piece_cb" where
  "get_pos_cb cb pos = get_cb cb (row pos) (col pos)"

definition set_cell_cb :: "ChessBoard \<Rightarrow> int \<Rightarrow> int \<Rightarrow> Piece_cb \<Rightarrow> ChessBoard" where
  "set_cell_cb cb r c p = cb\<lparr>data_cb := (data_cb cb)[nat r := (data_cb cb ! nat r)[nat c := p]]\<rparr>"

definition set_pos_cb :: "ChessBoard \<Rightarrow> Pos \<Rightarrow> Piece_cb \<Rightarrow> ChessBoard" where
  "set_pos_cb cb pos p = set_cell_cb cb (row pos) (col pos) p"

definition reset_castle :: "ChessBoard \<Rightarrow> Side_cb \<Rightarrow> ChessBoard" where
  "reset_castle cb side =
     (if side = PS_UPPER then cb\<lparr>canUpperCastle := True\<rparr> else cb\<lparr>canDownCastle := True\<rparr>)"

definition reset_en_passant :: "ChessBoard \<Rightarrow> ChessBoard" where
  "reset_en_passant cb = cb\<lparr>enPassantPos := \<lparr>row = 0, col = 0\<rparr>\<rparr>"

text \<open>\<^verbatim>\<open>ChessBoard::move(Move const&)\<close>.\<close>

definition move_cb :: "ChessBoard \<Rightarrow> Move_cb \<Rightarrow> ChessBoard" where
  "move_cb cb mv =
     (let fromP = get_pos_cb cb (from_cb mv);
          cb0 = cb\<lparr>history_cb := history_cb cb @
                  [\<lparr>hist_from = from_cb mv, hist_to = to_cb mv, hist_moveType = moveType_cb mv,
                    hist_fromP = fromP, hist_toP = get_pos_cb cb (to_cb mv)\<rparr>]\<rparr>;
          cb1 = set_pos_cb cb0 (to_cb mv) fromP;
          cb2 = set_pos_cb cb1 (from_cb mv) P_EE_cb;
          cb3 = reset_en_passant cb2;
          cb4 = (if fromP = P_UK_cb then cb3\<lparr>canUpperCastle := False\<rparr>
                 else if fromP = P_DK_cb then cb3\<lparr>canDownCastle := False\<rparr>
                 else cb3);
          fr = row (from_cb mv);
          fc = col (from_cb mv)
      in if moveType_cb mv = LONG_CASTLE
         then set_cell_cb (set_cell_cb cb4 fr (fc - 1) (get_cb cb4 fr (fc - 4))) fr (fc - 4) P_EE_cb
         else if moveType_cb mv = SHORT_CASTLE
         then set_cell_cb (set_cell_cb cb4 fr (fc + 1) (get_cb cb4 fr (fc + 3))) fr (fc + 3) P_EE_cb
         else if moveType_cb mv = EN_PASSANT
         then set_cell_cb cb4 fr (col (to_cb mv)) P_EE_cb
         else if moveType_cb mv = PAWN_2_STEPS
         then
           let s = get_side fromP;
               reversePawn = (if s = PS_UPPER then P_DP_cb else P_UP_cb)
           in if get_cb cb4 fr (fc - 1) = reversePawn
              then cb4\<lparr>enPassantPos := \<lparr>row = fr, col = fc - 1\<rparr>\<rparr>
              else if get_cb cb4 fr (fc + 1) = reversePawn
              then cb4\<lparr>enPassantPos := \<lparr>row = fr, col = fc + 1\<rparr>\<rparr>
              else cb4
         else cb4)"

text \<open>\<^verbatim>\<open>ChessBoard::undo\<close>. The source keeps a reference to the last history node and reads
  it after \<^verbatim>\<open>pop_back\<close>; the fields read are the ones the node had.\<close>

definition undo_cb :: "ChessBoard \<Rightarrow> ChessBoard" where
  "undo_cb cb =
     (if history_cb cb = [] then cb
      else
        let hist = last (history_cb cb);
            cb1 = set_pos_cb cb (hist_from hist) (hist_fromP hist);
            cb2 = set_pos_cb cb1 (hist_to hist) (hist_toP hist);
            cb3 = cb2\<lparr>history_cb := butlast (history_cb cb2)\<rparr>;
            fr = row (hist_from hist);
            fc = col (hist_from hist)
        in if hist_moveType hist = LONG_CASTLE
           then reset_castle
                  (set_cell_cb (set_cell_cb cb3 fr (fc - 4) (get_cb cb3 fr (fc - 1))) fr (fc - 1) P_EE_cb)
                  (get_side (hist_fromP hist))
           else if hist_moveType hist = SHORT_CASTLE
           then reset_castle
                  (set_cell_cb (set_cell_cb cb3 fr (fc + 3) (get_cb cb3 fr (fc + 1))) fr (fc + 1) P_EE_cb)
                  (get_side (hist_fromP hist))
           else if hist_moveType hist = EN_PASSANT
           then (set_cell_cb cb3 fr (col (hist_to hist))
                   (if get_side (hist_fromP hist) = PS_UPPER then P_DP_cb else P_UP_cb))
                  \<lparr>enPassantPos := \<lparr>row = fr, col = col (hist_to hist)\<rparr>\<rparr>
           else cb3)"

definition try_add_possible_move_cb :: "ChessBoard \<Rightarrow> Pos \<Rightarrow> Pos \<Rightarrow> Move_cb list \<Rightarrow> bool \<times> Move_cb list" where
  "try_add_possible_move_cb cb f t vec =
     (let fromP = get_pos_cb cb f; toP = get_pos_cb cb t
      in if toP = P_EO_cb then (False, vec)
         else if toP = P_EE_cb then (True, vec @ [Move3_cb f t NORMAL])
         else (False, if get_side fromP \<noteq> get_side toP then vec @ [Move3_cb f t NORMAL] else vec))"

text \<open>One loop of \<^verbatim>\<open>gen_crossing\<close> or \<^verbatim>\<open>gen_diagonal\<close> of the second file; it ends here
  where the scan would leave the array, and for a step \<open>(0, 0)\<close>, which no loop has.\<close>

function scan_cb :: "ChessBoard \<Rightarrow> Pos \<Rightarrow> int \<Rightarrow> int \<Rightarrow> int \<Rightarrow> int \<Rightarrow> Move_cb list \<Rightarrow> Move_cb list" where
  "scan_cb cb f rr cc dr dc vec =
     (if in_grid rr cc \<and> dr * EDGE_LEN + dc \<noteq> 0
      then (case try_add_possible_move_cb cb f \<lparr>row = rr, col = cc\<rparr> vec of
              (True, vec') \<Rightarrow> scan_cb cb f (rr + dr) (cc + dc) dr dc vec'
            | (False, vec') \<Rightarrow> vec')
      else vec)"
  by pat_completeness auto
termination
proof (relation "measure (\<lambda>(cb, f, rr, cc, dr, dc, vec).
      if 0 < dr * EDGE_LEN + dc then nat (EDGE_LEN * EDGE_LEN - (rr * EDGE_LEN + cc))
      else nat (rr * EDGE_LEN + cc + 1))")
  show "wf (measure (\<lambda>(cb, f, rr, cc, dr, dc, vec).
      if 0 < dr * EDGE_LEN + dc then nat (EDGE_LEN * EDGE_LEN - (rr * EDGE_LEN + cc))
      else nat (rr * EDGE_LEN + cc + 1)))"
    by simp
next
  fix cb :: ChessBoard and f :: Pos and rr cc dr dc :: int and vec :: "Move_cb list"
    and x :: "bool \<times> Move_cb list" and x1 :: bool and x2 :: "Move_cb list"
  assume a: "in_grid rr cc \<and> dr * EDGE_LEN + dc \<noteq> 0"
  have e: "(rr + dr) * EDGE_LEN + (cc + dc) = (rr * EDGE_LEN + cc) + (dr * EDGE_LEN + dc)"
    by (simp add: algebra_simps)
  have i: "0 \<le> rr * EDGE_LEN + cc" "rr * EDGE_LEN + cc < EDGE_LEN * EDGE_LEN"
    using a by (auto simp: in_grid_def EDGE_LEN_def)
  have "(if 0 < dr * EDGE_LEN + dc
          then nat (EDGE_LEN * EDGE_LEN - ((rr * EDGE_LEN + cc) + (dr * EDGE_LEN + dc)))
          else nat ((rr * EDGE_LEN + cc) + (dr * EDGE_LEN + dc) + 1))
      < (if 0 < dr * EDGE_LEN + dc then nat (EDGE_LEN * EDGE_LEN - (rr * EDGE_LEN + cc))
         else nat (rr * EDGE_LEN + cc + 1))"
    using a i by auto
  then show "((cb, f, rr + dr, cc + dc, dr, dc, x2), (cb, f, rr, cc, dr, dc, vec))
      \<in> measure (\<lambda>(cb, f, rr, cc, dr, dc, vec).
          if 0 < dr * EDGE_LEN + dc then nat (EDGE_LEN * EDGE_LEN - (rr * EDGE_LEN + cc))
          else nat (rr * EDGE_LEN + cc + 1))"
    by (simp only: in_measure prod.case e)
qed

declare scan_cb.simps [simp del]

definition gen_crossing_cb :: "ChessBoard \<Rightarrow> Pos \<Rightarrow> Move_cb list \<Rightarrow> Move_cb list" where
  "gen_crossing_cb cb f vec =
     (let v1 = scan_cb cb f (row f - 1) (col f) (- 1) 0 vec;
          v2 = scan_cb cb f (row f + 1) (col f) 1 0 v1;
          v3 = scan_cb cb f (row f) (col f - 1) 0 (- 1) v2
      in scan_cb cb f (row f) (col f + 1) 0 1 v3)"

definition gen_diagonal_cb :: "ChessBoard \<Rightarrow> Pos \<Rightarrow> Move_cb list \<Rightarrow> Move_cb list" where
  "gen_diagonal_cb cb f vec =
     (let v1 = scan_cb cb f (row f - 1) (col f - 1) (- 1) (- 1) vec;
          v2 = scan_cb cb f (row f - 1) (col f + 1) (- 1) 1 v1;
          v3 = scan_cb cb f (row f + 1) (col f - 1) 1 (- 1) v2
      in scan_cb cb f (row f + 1) (col f + 1) 1 1 v3)"

text \<open>The lambda \<^verbatim>\<open>add_and_check_promote\<close> of \<^verbatim>\<open>gen_moves_pawn\<close>.\<close>

definition add_and_check_promote :: "Pos \<Rightarrow> Pos \<Rightarrow> bool \<Rightarrow> Move_cb list \<Rightarrow> Move_cb list" where
  "add_and_check_promote f t canPromote vec =
     (if canPromote then vec @ [Move3_cb f t GO_AND_PROMOTE] else vec @ [Move3_cb f t NORMAL])"

definition pawn_capture_cb :: "ChessBoard \<Rightarrow> Pos \<Rightarrow> int \<Rightarrow> int \<Rightarrow> int \<Rightarrow> Move_cb list \<Rightarrow> Move_cb list" where
  "pawn_capture_cb cb f dir prow c vec =
     (let p = get_cb cb (row f + dir) c; s = get_side p
      in if s \<noteq> PS_EXTRA \<and> s \<noteq> get_side (get_pos_cb cb f)
         then add_and_check_promote f \<lparr>row = row f + dir, col = c\<rparr> (row f + dir = prow) vec
         else vec)"

text \<open>One branch of \<^verbatim>\<open>gen_moves_pawn\<close>: \<open>dir\<close> is \<open>1\<close>, \<open>brow\<close> and \<open>prow\<close> the begin and
  promotion rows of the upper side in the first branch, \<open>- 1\<close> and the rows of the down
  side in the second.\<close>

definition gen_moves_pawn_dir :: "ChessBoard \<Rightarrow> Pos \<Rightarrow> int \<Rightarrow> int \<Rightarrow> int \<Rightarrow> Move_cb list \<Rightarrow> Move_cb list" where
  "gen_moves_pawn_dir cb f dir brow prow vec =
     (let ep = enPassantPos cb;
          v1 = (if row f = row ep \<and> (col f + 1 = col ep \<or> col f - 1 = col ep)
                then vec @ [Move3_cb f \<lparr>row = row f + dir, col = col (enPassantPos cb)\<rparr> EN_PASSANT]
                else vec);
          v2 = (if get_cb cb (row f + dir) (col f) = P_EE_cb
                then let v = (if row f = brow \<and> get_cb cb (row f + 2 * dir) (col f) = P_EE_cb
                              then v1 @ [Move3_cb f \<lparr>row = row f + 2 * dir, col = col f\<rparr> PAWN_2_STEPS]
                              else v1)
                     in add_and_check_promote f \<lparr>row = row f + dir, col = col f\<rparr> (row f + dir = prow) v
                else v1);
          v3 = pawn_capture_cb cb f dir prow (col f + 1) v2
      in pawn_capture_cb cb f dir prow (col f - 1) v3)"

definition gen_moves_pawn :: "ChessBoard \<Rightarrow> Pos \<Rightarrow> Move_cb list \<Rightarrow> Move_cb list" where
  "gen_moves_pawn cb f vec =
     (if get_pos_cb cb f = P_UP_cb
      then gen_moves_pawn_dir cb f 1 UPPER_PAWN_BEGIN_ROW UPPER_PAWN_PROMOTE_ROW vec
      else gen_moves_pawn_dir cb f (- 1) DOWN_PAWN_BEGIN_ROW DOWN_PAWN_PROMOTE_ROW vec)"

fun try_offsets_cb :: "ChessBoard \<Rightarrow> Pos \<Rightarrow> (int \<times> int) list \<Rightarrow> Move_cb list \<Rightarrow> Move_cb list" where
  "try_offsets_cb cb f [] vec = vec"
| "try_offsets_cb cb f ((dr, dc) # ds) vec =
     try_offsets_cb cb f ds
       (snd (try_add_possible_move_cb cb f \<lparr>row = row f + dr, col = col f + dc\<rparr> vec))"

definition gen_moves_rook :: "ChessBoard \<Rightarrow> Pos \<Rightarrow> Move_cb list \<Rightarrow> Move_cb list" where
  "gen_moves_rook cb f vec = gen_crossing_cb cb f vec"

definition gen_moves_knight :: "ChessBoard \<Rightarrow> Pos \<Rightarrow> Move_cb list \<Rightarrow> Move_cb list" where
  "gen_moves_knight cb f vec = try_offsets_cb cb f knight_offsets vec"

definition gen_moves_bishop :: "ChessBoard \<Rightarrow> Pos \<Rightarrow> Move_cb list \<Rightarrow> Move_cb list" where
  "gen_moves_bishop cb f vec = gen_diagonal_cb cb f vec"

definition gen_moves_queen :: "ChessBoard \<Rightarrow> Pos \<Rightarrow> Move_cb list \<Rightarrow> Move_cb list" where
  "gen_moves_queen cb f vec = gen_diagonal_cb cb f (gen_crossing_cb cb f vec)"

text \<open>The offsets of the eight \<^verbatim>\<open>try_add_possible_move\<close> calls of \<^verbatim>\<open>gen_moves_king\<close>, in
  the order of the source.\<close>

definition king_offsets_cb :: "(int \<times> int) list" where
  "king_offsets_cb = [(1, - 1), (1, 1), (1, - 1), (1, 1), (- 1, - 1), (- 1, 1), (- 1, - 1), (- 1, 1)]"

definition king_castling_cb :: "ChessBoard \<Rightarrow> Pos \<Rightarrow> Move_cb list \<Rightarrow> Move_cb list" where
  "king_castling_cb cb f vec =
     (let fromP = get_pos_cb cb f; r = row f; c = col f
      in case get_side fromP of
           PS_UPPER \<Rightarrow>
             if canUpperCastle cb
             then let v1 = (if get_cb cb r (c + 1) = P_EE_cb \<and> get_cb cb r (c + 2) = P_EE_cb
                               \<and> get_cb cb r (c + 3) = P_UR_cb
                            then vec @ [Move3_cb f \<lparr>row = r, col = c + 2\<rparr> SHORT_CASTLE] else vec)
                  in if get_cb cb r (c - 1) = P_EE_cb \<and> get_cb cb r (c - 2) = P_EE_cb
                        \<and> get_cb cb r (c - 3) = P_EE_cb \<and> get_cb cb r (c - 4) = P_UR_cb
                     then v1 @ [Move3_cb f \<lparr>row = r, col = c - 2\<rparr> LONG_CASTLE] else v1
             else vec
         | PS_DOWN \<Rightarrow>
             if canDownCastle cb
             then let v1 = (if get_cb cb r (c + 1) = P_EE_cb \<and> get_cb cb r (c + 2) = P_EE_cb
                               \<and> get_cb cb r (c + 3) = P_DR_cb
                            then vec @ [Move3_cb f \<lparr>row = r, col = c + 2\<rparr> SHORT_CASTLE] else vec)
                  in if get_cb cb r (c - 1) = P_EE_cb \<and> get_cb cb r (c - 2) = P_EE_cb
                        \<and> get_cb cb r (c - 3) = P_EE_cb \<and> get_cb cb r (c - 4) = P_DR_cb
                     then v1 @ [Move3_cb f \<lparr>row = r, col = c - 2\<rparr> LONG_CASTLE] else v1
             else vec
         | PS_EXTRA \<Rightarrow> vec)"

definition gen_moves_king :: "ChessBoard \<Rightarrow> Pos \<Rightarrow> Move_cb list \<Rightarrow> Move_cb list" where
  "gen_moves_king cb f vec = king_castling_cb cb f (try_offsets_cb cb f king_offsets_cb vec)"

definition gen_cell_cb :: "ChessBoard \<Rightarrow> Side_cb \<Rightarrow> Move_cb list \<Rightarrow> int \<times> int \<Rightarrow> Move_cb list" where
  "gen_cell_cb cb s vec rc =
     (let r = fst rc; c = snd rc; p = get_cb cb r c
      in if get_side p = s
         then (case get_type p of
                 PT_PAWN \<Rightarrow> gen_moves_pawn cb \<lparr>row = r, col = c\<rparr> vec
               | PT_ROOK \<Rightarrow> gen_moves_rook cb \<lparr>row = r, col = c\<rparr> vec
               | PT_KNIGHT \<Rightarrow> gen_moves_knight cb \<lparr>row = r, col = c\<rparr> vec
               | PT_BISHOP \<Rightarrow> gen_moves_bishop cb \<lparr>row = r, col = c\<rparr> vec
               | PT_QUEEN \<Rightarrow> gen_moves_queen cb \<lparr>row = r, col = c\<rparr> vec
               | PT_KING \<Rightarrow> gen_moves_king cb \<lparr>row = r, col = c\<rparr> vec
               | _ \<Rightarrow> vec)
         else vec)"

definition cells_cb :: "(int \<times> int) list" where
  "cells_cb = concat (map (\<lambda>r. map (\<lambda>c. (r, c)) [LINE_BEGIN..LINE_END - 1]) [LINE_BEGIN..LINE_END - 1])"

definition gen_one_side_moves :: "ChessBoard \<Rightarrow> Side_cb \<Rightarrow> Move_cb list" where
  "gen_one_side_moves cb s = foldl (gen_cell_cb cb s) [] cells_cb"

text \<open>
  The constructor of \<^verbatim>\<open>ChessBoard\<close> fills the border with \<^verbatim>\<open>P_EO\<close> and reads the 64 inner
  cells from the file \<^verbatim>\<open>res/default_board.txt\<close>, which is not among the sources:
  \<open>ChessBoard_of\<close> is the board built from the eight rows read. \<open>default_rows\<close> is the
  starting position of chess, the one \<^verbatim>\<open>Board::reset\<close> of the first file writes.
\<close>

definition ChessBoard_of :: "Piece_cb list list \<Rightarrow> ChessBoard" where
  "ChessBoard_of rows =
     (let border = replicate 12 P_EO_cb
      in \<lparr>data_cb = [border, border] @ map (\<lambda>r. [P_EO_cb, P_EO_cb] @ r @ [P_EO_cb, P_EO_cb]) rows
                      @ [border, border],
          history_cb = [], canUpperCastle = True, canDownCastle = True,
          enPassantPos = \<lparr>row = 0, col = 0\<rparr>\<rparr>)"

definition default_rows :: "Piece_cb list list" where
  "default_rows =
     [[P_UR_cb, P_UN_cb, P_UB_cb, P_UQ_cb, P_UK_cb, P_UB_cb, P_UN_cb, P_UR_cb],
      replicate 8 P_UP_cb,
      replicate 8 P_EE_cb, replicate 8 P_EE_cb, replicate 8 P_EE_cb, replicate 8 P_EE_cb,
      replicate 8 P_DP_cb,
      [P_DR_cb, P_DN_cb, P_DB_cb, P_DQ_cb, P_DK_cb, P_DB_cb, P_DN_cb, P_DR_cb]]"

section \<open>Predicates and games used in the statements\<close>

text \<open>
  What the generator has checked when it emits a move for side \<open>s\<close>: the piece on the
  source square is of that side and, by the kind of the move, the test that the code
  made before it appended the move.
\<close>

definition dest_ok :: "Board \<Rightarrow> Side \<Rightarrow> Pos \<Rightarrow> bool" where
  "dest_ok b s t \<longleftrightarrow> get_pos b t \<noteq> P_EO \<and> (get_pos b t = P_EE \<or> piece_side (get_pos b t) \<noteq> s)"

definition move_ok :: "Board \<Rightarrow> Side \<Rightarrow> Move \<Rightarrow> bool" where
  "move_ok b s m \<longleftrightarrow>
     piece_side (get_pos b (from_pos m)) = s \<and>
     (case moveType m of
        invalid \<Rightarrow> False
      | normal \<Rightarrow> dest_ok b s (to_pos m)
      | en_passant \<Rightarrow> has_chance_to_do_en_passant b
      | long_castling \<Rightarrow> (if s = upper then can_upper_long_castle b else can_down_long_castle b)
      | short_castling \<Rightarrow> (if s = upper then can_upper_short_castle b else can_down_short_castle b)
      | pawn_move_and_promote \<Rightarrow> dest_ok b s (to_pos m)
      | pawn_2_steps \<Rightarrow> get_pos b (to_pos m) = P_EE)"


text \<open>
  A game: the moves are applied in turn, each only if the generator lists it for the
  side that makes it, as \<^verbatim>\<open>Game::input_to_move\<close> demands of the user's move and as the
  search guarantees of its own.
\<close>

fun play :: "Board \<Rightarrow> (Side \<times> Move) list \<Rightarrow> Board option" where
  "play b [] = Some b"
| "play b ((s, mv) # ms) =
     (if mv \<in> set (gen_moves_for_one_side b s) then play (move b mv) ms else None)"

definition mv_of :: "int \<Rightarrow> int \<Rightarrow> int \<Rightarrow> int \<Rightarrow> MoveType \<Rightarrow> Move" where
  "mv_of r c r' c' t = Move3 \<lparr>row = r, col = c\<rparr> \<lparr>row = r', col = c'\<rparr> t"

text \<open>
  The conditions of castling, as the specification lists them: the flag of the side
  is set, every square strictly between the king's square (the source square of the
  move) and the rook's square of origin is empty, and the rook of the side stands on
  that square.
\<close>

definition king_start_square :: "Side \<Rightarrow> Pos" where
  "king_start_square s = (if s = upper then \<lparr>row = 2, col = 6\<rparr> else \<lparr>row = 9, col = 6\<rparr>)"

definition rook_origin_square :: "Side \<Rightarrow> MoveType \<Rightarrow> Pos" where
  "rook_origin_square s t =
     \<lparr>row = (if s = upper then 2 else 9), col = (if t = short_castling then 9 else 2)\<rparr>"

definition squares_between :: "Pos \<Rightarrow> Pos \<Rightarrow> Pos list" where
  "squares_between p q =
     (if row p = row q
      then map (\<lambda>c. \<lparr>row = row p, col = c\<rparr>) [min (col p) (col q) + 1..max (col p) (col q) - 1]
      else [])"

definition castle_flag :: "Board \<Rightarrow> Side \<Rightarrow> bool" where
  "castle_flag b s = (if s = upper then get_upper_castle_flag b else get_down_castle_flag b)"

definition castling_conditions :: "Board \<Rightarrow> Side \<Rightarrow> Move \<Rightarrow> bool" where
  "castling_conditions b s m \<longleftrightarrow>
     castle_flag b s \<and>
     list_all (\<lambda>q. get_pos b q = P_EE)
       (squares_between (from_pos m) (rook_origin_square s (moveType m))) \<and>
     get_pos b (rook_origin_square s (moveType m)) = (if s = upper then P_UR else P_DR)"

definition board_c7w :: Board where
  "board_c7w = \<lparr>data =
      ''############'' @
      ''############'' @
      ''##R...K..R##'' @
      ''##........##'' @
      ''##........##'' @
      ''##........##'' @
      ''##........##'' @
      ''##........##'' @
      ''##........##'' @
      ''##....k...##'' @
      ''############'' @
      ''############'' @
      ''1100'',
    history = []\<rparr>"

definition board_c7 :: Board where
  "board_c7 = \<lparr>data =
      ''############'' @
      ''############'' @
      ''##..KQ...R##'' @
      ''##........##'' @
      ''##........##'' @
      ''##........##'' @
      ''##........##'' @
      ''##........##'' @
      ''##........##'' @
      ''##....k...##'' @
      ''############'' @
      ''############'' @
      ''1100'',
    history = []\<rparr>"

text \<open>A move whose source square lies in the playable range and whose destination
  lies on the 12 by 12 grid.\<close>

definition on_board :: "Move \<Rightarrow> bool" where
  "on_board m \<longleftrightarrow>
     line_begin \<le> row (from_pos m) \<and> row (from_pos m) \<le> line_end \<and>
     line_begin \<le> col (from_pos m) \<and> col (from_pos m) \<le> line_end \<and>
     0 \<le> row (to_pos m) \<and> row (to_pos m) < width \<and>
     0 \<le> col (to_pos m) \<and> col (to_pos m) < width"

text \<open>\<open>play\<close> with the test of a move made on the cell of its source square only; it is
  what the proofs evaluate.\<close>

fun play_cell :: "Board \<Rightarrow> (Side \<times> Move) list \<Rightarrow> Board option" where
  "play_cell b [] = Some b"
| "play_cell b ((s, mv) # ms) =
     (let r = row (from_pos mv); c = col (from_pos mv)
      in if line_begin \<le> r \<and> r \<le> line_end \<and> line_begin \<le> c \<and> c \<le> line_end
            \<and> mv \<in> set (gen_cell b s [] (r, c))
         then play_cell (move b mv) ms else None)"

text \<open>
  Two games from the starting position, the down side (the user) moving first.
  In \<open>game1\<close> a down pawn walks to row 5 of column 9, another one walks down column 7
  and takes the upper pawn of column 8 on row 3, the upper knight moving to and fro
  meanwhile; then the upper pawn of column 7 makes its double step, from row 3 to
  row 5. In \<open>game2\<close> a down pawn walks to row 5 of column 3 and the upper pawn of column 4
  makes its double step next to it.
\<close>

definition game1 :: "(Side \<times> Move) list" where
  "game1 = [(down, mv_of 8 9 6 9 pawn_2_steps), (upper, mv_of 2 3 4 2 normal),
            (down, mv_of 6 9 5 9 normal), (upper, mv_of 4 2 2 3 normal),
            (down, mv_of 8 7 6 7 pawn_2_steps), (upper, mv_of 2 3 4 2 normal),
            (down, mv_of 6 7 5 7 normal), (upper, mv_of 4 2 2 3 normal),
            (down, mv_of 5 7 4 7 normal), (upper, mv_of 2 3 4 2 normal),
            (down, mv_of 4 7 3 8 normal), (upper, mv_of 3 7 5 7 pawn_2_steps)]"

definition game2 :: "(Side \<times> Move) list" where
  "game2 = [(down, mv_of 8 3 6 3 pawn_2_steps), (upper, mv_of 2 3 4 2 normal),
            (down, mv_of 6 3 5 3 normal), (upper, mv_of 3 4 5 4 pawn_2_steps)]"

text \<open>Games of the second file, from the board its constructor builds; \<open>game3\<close> is
  \<open>game_cb2\<close> played on the board of the first file; \<open>board_c8\<close> is a board without any
  piece of the upper side.\<close>

fun play_cb :: "ChessBoard \<Rightarrow> (Side_cb \<times> Move_cb) list \<Rightarrow> ChessBoard option" where
  "play_cb cb [] = Some cb"
| "play_cb cb ((s, mv) # ms) =
     (if mv \<in> set (gen_one_side_moves cb s) then play_cb (move_cb cb mv) ms else None)"

definition mv_cb :: "int \<Rightarrow> int \<Rightarrow> int \<Rightarrow> int \<Rightarrow> MoveType_cb \<Rightarrow> Move_cb" where
  "mv_cb r c r' c' t = Move3_cb \<lparr>row = r, col = c\<rparr> \<lparr>row = r', col = c'\<rparr> t"

definition game_cb1 :: "(Side_cb \<times> Move_cb) list" where
  "game_cb1 = [(PS_DOWN, mv_cb 8 2 7 2 NORMAL), (PS_UPPER, mv_cb 3 5 4 5 NORMAL),
               (PS_DOWN, mv_cb 7 2 6 2 NORMAL)]"

definition game_cb2 :: "(Side_cb \<times> Move_cb) list" where
  "game_cb2 = [(PS_DOWN, mv_cb 8 2 7 2 NORMAL), (PS_UPPER, mv_cb 3 6 4 6 NORMAL),
               (PS_DOWN, mv_cb 7 2 6 2 NORMAL)]"

definition game3 :: "(Side \<times> Move) list" where
  "game3 = [(down, mv_of 8 2 7 2 normal), (upper, mv_of 3 6 4 6 normal),
            (down, mv_of 7 2 6 2 normal)]"

definition board_c8 :: Board where
  "board_c8 = \<lparr>data =
      ''############'' @
      ''############'' @
      ''##........##'' @
      ''##........##'' @
      ''##........##'' @
      ''##........##'' @
      ''##........##'' @
      ''##........##'' @
      ''##pppppppp##'' @
      ''##rnbqkbnr##'' @
      ''############'' @
      ''############'' @
      ''0100'',
    history = []\<rparr>"

text \<open>
  The relation between the value \<open>v\<close> of plain minimax at a node and the value \<open>ab\<close>
  that the search with window \<open>(a, b)\<close> returns there: at or below the window \<open>ab\<close> is
  an upper bound of \<open>v\<close>, at or above it a lower bound, inside it the value itself.
\<close>

definition soft :: "real \<Rightarrow> real \<Rightarrow> real \<Rightarrow> real \<Rightarrow> bool" where
  "soft v ab a b \<longleftrightarrow> (ab \<le> a \<longrightarrow> v \<le> ab) \<and> (b \<le> ab \<longrightarrow> ab \<le> v) \<and> (a < ab \<and> ab < b \<longrightarrow> ab = v)"

definition bounded_scores :: "(Board \<Rightarrow> real) \<Rightarrow> bool" where
  "bounded_scores ev \<longleftrightarrow> (\<forall>b. LOWER_BOUND \<le> ev b \<and> ev b \<le> UPPER_BOUND)"

text \<open>A board with a lone down pawn on its row of origin and the two kings, and an
  evaluation that gives six million when the pawn stands on row 6, seven million when it
  stands on row 7, both above \<^verbatim>\<open>UPPER_BOUND\<close>.\<close>

definition board_c2 :: Board where
  "board_c2 = \<lparr>data =
      ''############'' @
      ''############'' @
      ''##....K...##'' @
      ''##........##'' @
      ''##........##'' @
      ''##........##'' @
      ''##........##'' @
      ''##........##'' @
      ''##p.......##'' @
      ''##....k...##'' @
      ''############'' @
      ''############'' @
      ''0000'',
    history = []\<rparr>"

definition ev_c2 :: "Board \<Rightarrow> real" where
  "ev_c2 b = (if get b 6 2 = P_DP then 6000000 else if get b 7 2 = P_DP then 7000000 else 0)"

text \<open>
  The loop over \<^verbatim>\<open>bestValues\<close> that ends the parallel search, read as a loop over the
  pairs of \<^verbatim>\<open>bestMoves[i]\<close> and \<^verbatim>\<open>bestValues[i]\<close>: the state is the pair the index found
  so far points to. It is used to relate that loop to the root loop of the sequential
  search. \<open>board_c3\<close> is a board without any piece of the down side.
\<close>

fun red_min :: "(Move \<times> real) list \<Rightarrow> Move \<times> real \<Rightarrow> Move \<times> real" where
  "red_min [] s = s"
| "red_min ((m, v) # rs) s = (if v \<le> snd s then red_min rs (m, v) else red_min rs s)"

fun red_max :: "(Move \<times> real) list \<Rightarrow> Move \<times> real \<Rightarrow> Move \<times> real" where
  "red_max [] s = s"
| "red_max ((m, v) # rs) s = (if v \<ge> snd s then red_max rs (m, v) else red_max rs s)"

definition board_c3 :: Board where
  "board_c3 = \<lparr>data =
      ''############'' @
      ''############'' @
      ''##RNBQKBNR##'' @
      ''##PPPPPPPP##'' @
      ''##........##'' @
      ''##........##'' @
      ''##........##'' @
      ''##........##'' @
      ''##........##'' @
      ''##........##'' @
      ''############'' @
      ''############'' @
      ''1000'',
    history = []\<rparr>"


section \<open>Board: frame and round trip\<close>

lemma history_set_cell [simp]: "history (set_cell b r c p) = history b"
  by (simp add: set_cell_def)

lemma history_set_pos [simp]: "history (set_pos b pos p) = history b"
  by (simp add: set_pos_def)

lemma history_set_upper_castle_flag [simp]: "history (set_upper_castle_flag b f) = history b"
  by (simp add: set_upper_castle_flag_def)

lemma history_set_down_castle_flag [simp]: "history (set_down_castle_flag b f) = history b"
  by (simp add: set_down_castle_flag_def)

lemma history_set_en_passant_pos [simp]: "history (set_en_passant_pos b r c) = history b"
  by (simp add: set_en_passant_pos_def)

lemma history_reset_en_passant_pos [simp]: "history (reset_en_passant_pos b) = history b"
  by (simp add: reset_en_passant_pos_def)

lemma history_move:
  "moveType mv \<noteq> invalid \<Longrightarrow> history (move b mv) = history b @ [data b]"
  by (simp add: move_def Let_def)

lemma undo_move:
  "moveType mv \<noteq> invalid \<Longrightarrow> undo (move b mv) = b"
proof -
  assume v: "moveType mv \<noteq> invalid"
  have h: "history (move b mv) = history b @ [data b]"
    using v by (rule history_move)
  have "undo (move b mv) = (move b mv)\<lparr>data := data b, history := history b\<rparr>"
    by (simp add: undo_def h)
  also have "\<dots> = b"
    by (cases b, cases "move b mv") simp
  finally show ?thesis .
qed

text \<open>
  C10. \<^verbatim>\<open>Board::move\<close> called with a move whose type is the invalid tag returns at once:
  the string that holds every cell, both castling flags and the en-passant target is
  unchanged, nothing is pushed on the history, and therefore a following \<^verbatim>\<open>undo\<close> does
  what it would have done without the call: it takes back the last real move.
\<close>

theorem move_invalid_frame:
  "moveType mv = invalid \<Longrightarrow>
     data (move b mv) = data b \<and> history (move b mv) = history b \<and> move b mv = b
     \<and> undo (move b mv) = undo b"
  by (simp add: move_def)

theorem move_invalid_frame_witness:
  "moveType Move_default = invalid \<and> data (move reset Move_default) = data reset
     \<and> history (move reset Move_default) = history reset \<and> move reset Move_default = reset
     \<and> undo (move reset Move_default) = undo reset"
  using move_invalid_frame [of Move_default reset] by (simp add: Move_default_def)


section \<open>MovesGen: the generators only append\<close>

lemma try_add_possible_move_append:
  "try_add_possible_move b f t vec =
     (fst (try_add_possible_move b f t []), vec @ snd (try_add_possible_move b f t []))"
  by (simp add: try_add_possible_move_def Let_def)

lemma scan_append: "scan b f rr cc dr dc v = v @ scan b f rr cc dr dc []"
proof -
  have "\<forall>v. scan b f rr cc dr dc v = v @ scan b f rr cc dr dc []"
  proof (rule scan.induct [of "\<lambda>b f rr cc dr dc w.
      \<forall>v. scan b f rr cc dr dc v = v @ scan b f rr cc dr dc []" b f rr cc dr dc "[]"], goal_cases)
    case (1 board f rr cc dr dc vec)
    show ?case
    proof
      fix v
      let ?t = "\<lparr>row = rr, col = cc\<rparr>"
      obtain fl new where tn: "try_add_possible_move board f ?t [] = (fl, new)"
        by (cases "try_add_possible_move board f ?t []")
      have tv: "\<And>u. try_add_possible_move board f ?t u = (fl, u @ new)"
        using try_add_possible_move_append [of board f ?t] tn by simp
      show "scan board f rr cc dr dc v = v @ scan board f rr cc dr dc []"
      proof (cases "in_string board rr cc \<and> dr * width + dc \<noteq> 0 \<and> fl")
        case True
        then have ih: "\<forall>v. scan board f (rr + dr) (cc + dc) dr dc v
            = v @ scan board f (rr + dr) (cc + dc) dr dc []"
          using tv [of vec] by (intro "1" [of fl "vec @ new"]) simp_all
        have l: "scan board f rr cc dr dc v = scan board f (rr + dr) (cc + dc) dr dc (v @ new)"
          using True tv by (subst scan.simps) simp
        have r: "scan board f rr cc dr dc [] = scan board f (rr + dr) (cc + dc) dr dc new"
          using True tn by (subst scan.simps) simp
        show ?thesis
          using ih [rule_format, of "v @ new"] ih [rule_format, of new] l r by simp
      next
        case False
        then show ?thesis
          using tv [of v] tn by (subst scan.simps, subst (2) scan.simps) auto
      qed
    qed
  qed
  then show ?thesis by blast
qed

lemma try_offsets_append: "try_offsets b f ds v = v @ try_offsets b f ds []"
proof (induction ds arbitrary: v)
  case Nil
  show ?case by simp
next
  case (Cons d ds)
  obtain dr dc where d: "d = (dr, dc)" by (cases d)
  let ?t = "\<lparr>row = row f + dr, col = col f + dc\<rparr>"
  define new where "new = snd (try_add_possible_move b f ?t [])"
  have s: "\<And>u. snd (try_add_possible_move b f ?t u) = u @ new"
    unfolding new_def using try_add_possible_move_append [of b f ?t] by (metis snd_conv)
  have "try_offsets b f (d # ds) v = (v @ new) @ try_offsets b f ds []"
    unfolding d try_offsets.simps s by (rule Cons.IH)
  moreover have "try_offsets b f (d # ds) [] = new @ try_offsets b f ds []"
    unfolding d try_offsets.simps s by (simp add: Cons.IH [of new])
  ultimately show ?case by simp
qed

lemma pawn_add_and_check_promote_append:
  "pawn_add_and_check_promote s f t cp v = v @ pawn_add_and_check_promote s f t cp []"
  by (simp add: pawn_add_and_check_promote_def)

lemma pawn_capture_append:
  "pawn_capture b sd f dir prow c v = v @ pawn_capture b sd f dir prow c []"
  unfolding pawn_capture_def Let_def
  using pawn_add_and_check_promote_append [of sd f _ _ v] by simp

lemma pawn_steps_upper_append: "pawn_steps_upper b f v = v @ pawn_steps_upper b f []"
proof -
  define PA where "PA = (\<lambda>s f t cp. pawn_add_and_check_promote s f t cp [])"
  define PC where "PC = (\<lambda>sd f dir prow c. pawn_capture b sd f dir prow c [])"
  have pa: "pawn_add_and_check_promote s f t cp u = u @ PA s f t cp" for s f t cp u
    unfolding PA_def by (rule pawn_add_and_check_promote_append)
  have pc: "pawn_capture b sd f dir prow c u = u @ PC sd f dir prow c" for sd f dir prow c u
    unfolding PC_def by (rule pawn_capture_append)
  show ?thesis
    unfolding pawn_steps_upper_def Let_def pa pc by auto
qed

lemma pawn_steps_down_append: "pawn_steps_down b f v = v @ pawn_steps_down b f []"
proof -
  define PA where "PA = (\<lambda>s f t cp. pawn_add_and_check_promote s f t cp [])"
  define PC where "PC = (\<lambda>sd f dir prow c. pawn_capture b sd f dir prow c [])"
  have pa: "pawn_add_and_check_promote s f t cp u = u @ PA s f t cp" for s f t cp u
    unfolding PA_def by (rule pawn_add_and_check_promote_append)
  have pc: "pawn_capture b sd f dir prow c u = u @ PC sd f dir prow c" for sd f dir prow c u
    unfolding PC_def by (rule pawn_capture_append)
  show ?thesis
    unfolding pawn_steps_down_def Let_def pa pc by auto
qed

lemma king_castling_append: "king_castling b f v = v @ king_castling b f []"
  by (simp add: king_castling_def Let_def)

lemma gen_crossing_append: "gen_crossing b f v = v @ gen_crossing b f []"
proof -
  define S where "S = (\<lambda>rr cc dr dc. scan b f rr cc dr dc [])"
  have s: "scan b f rr cc dr dc u = u @ S rr cc dr dc" for rr cc dr dc u
    unfolding S_def by (rule scan_append)
  show ?thesis
    unfolding gen_crossing_def Let_def s by simp
qed

lemma gen_diagonal_append: "gen_diagonal b f v = v @ gen_diagonal b f []"
proof -
  define S where "S = (\<lambda>rr cc dr dc. scan b f rr cc dr dc [])"
  have s: "scan b f rr cc dr dc u = u @ S rr cc dr dc" for rr cc dr dc u
    unfolding S_def by (rule scan_append)
  show ?thesis
    unfolding gen_diagonal_def Let_def s by simp
qed

lemma gen_cell_append: "gen_cell b s v rc = v @ gen_cell b s [] rc"
proof -
  have q: "queen_steps b f v = v @ queen_steps b f []" for f
    unfolding queen_steps_def
    using gen_diagonal_append [of b f "gen_crossing b f v"] gen_crossing_append [of b f v]
      gen_diagonal_append [of b f "gen_crossing b f []"] by simp
  have k: "king_steps b f v = v @ king_steps b f []" for f
    unfolding king_steps_def
    using king_castling_append [of b f "try_offsets b f king_offsets v"]
      try_offsets_append [of b f king_offsets v]
      king_castling_append [of b f "try_offsets b f king_offsets []"] by simp
  have p: "pawn_steps b f v = v @ pawn_steps b f []" for f
    unfolding pawn_steps_def
    using pawn_steps_upper_append [of b f v] pawn_steps_down_append [of b f v] by simp
  have r: "rook_steps b f v = v @ rook_steps b f []" for f
    unfolding rook_steps_def by (rule gen_crossing_append)
  have bi: "bishop_steps b f v = v @ bishop_steps b f []" for f
    unfolding bishop_steps_def by (rule gen_diagonal_append)
  have n: "knight_steps b f v = v @ knight_steps b f []" for f
    unfolding knight_steps_def by (rule try_offsets_append)
  show ?thesis
    unfolding gen_cell_def Let_def
    using p r n bi q k by (simp split: Type.split)
qed

lemma foldl_gen_cell: "foldl (gen_cell b s) v cs = v @ concat (map (gen_cell b s []) cs)"
proof (induction cs arbitrary: v)
  case Nil
  show ?case by simp
next
  case (Cons c cs)
  show ?case
    using Cons.IH [of "v @ gen_cell b s [] c"] gen_cell_append [of b s v c] by simp
qed

lemma gen_moves_for_one_side_concat:
  "gen_moves_for_one_side b s = concat (map (gen_cell b s []) cells)"
  by (simp add: gen_moves_for_one_side_def foldl_gen_cell)

lemma gen_moves_for_one_side_cell:
  "line_begin \<le> r \<Longrightarrow> r \<le> line_end \<Longrightarrow> line_begin \<le> c \<Longrightarrow> c \<le> line_end \<Longrightarrow>
     mv \<in> set (gen_cell b s [] (r, c)) \<Longrightarrow> mv \<in> set (gen_moves_for_one_side b s)"
  by (force simp: gen_moves_for_one_side_concat cells_def)

section \<open>MovesGen: every generated move passed its test\<close>

lemma try_add_possible_move_ok:
  assumes "\<forall>m\<in>set vec. move_ok b (piece_side (get_pos b f)) m"
  shows "\<forall>m\<in>set (snd (try_add_possible_move b f t vec)). move_ok b (piece_side (get_pos b f)) m"
  using assms
  by (auto simp: try_add_possible_move_def Let_def move_ok_def dest_ok_def Move3_def)

lemma scan_ok:
  "(\<forall>m\<in>set vec. move_ok b (piece_side (get_pos b f)) m) \<Longrightarrow>
     (\<forall>m\<in>set (scan b f rr cc dr dc vec). move_ok b (piece_side (get_pos b f)) m)"
proof (induction b f rr cc dr dc vec rule: scan.induct)
  case (1 board f rr cc dr dc vec)
  let ?t = "\<lparr>row = rr, col = cc\<rparr>"
  obtain fl v' where t: "try_add_possible_move board f ?t vec = (fl, v')"
    by (cases "try_add_possible_move board f ?t vec")
  have v': "\<forall>m\<in>set v'. move_ok board (piece_side (get_pos board f)) m"
    using try_add_possible_move_ok [OF "1.prems", of ?t] t by simp
  show ?case
  proof (cases "in_string board rr cc \<and> dr * width + dc \<noteq> 0")
    case True
    show ?thesis
    proof (cases fl)
      case True
      have "\<forall>m\<in>set (scan board f (rr + dr) (cc + dc) dr dc v').
          move_ok board (piece_side (get_pos board f)) m"
        using "1.IH" [of fl v'] \<open>in_string board rr cc \<and> dr * width + dc \<noteq> 0\<close> t True v'
        by simp
      then show ?thesis
        using \<open>in_string board rr cc \<and> dr * width + dc \<noteq> 0\<close> t True
        by (subst scan.simps) simp
    next
      case False
      then show ?thesis
        using \<open>in_string board rr cc \<and> dr * width + dc \<noteq> 0\<close> t v'
        by (subst scan.simps) simp
    qed
  next
    case False
    then show ?thesis
      using "1.prems" by (subst scan.simps) auto
  qed
qed

lemma try_offsets_ok:
  "(\<forall>m\<in>set vec. move_ok b (piece_side (get_pos b f)) m) \<Longrightarrow>
     (\<forall>m\<in>set (try_offsets b f ds vec). move_ok b (piece_side (get_pos b f)) m)"
proof (induction ds arbitrary: vec)
  case Nil
  then show ?case by simp
next
  case (Cons d ds)
  obtain dr dc where d: "d = (dr, dc)" by (cases d)
  show ?case
    unfolding d try_offsets.simps
    by (rule Cons.IH) (rule try_add_possible_move_ok [OF Cons.prems])
qed

lemma gen_crossing_ok:
  "(\<forall>m\<in>set vec. move_ok b (piece_side (get_pos b f)) m) \<Longrightarrow>
     (\<forall>m\<in>set (gen_crossing b f vec). move_ok b (piece_side (get_pos b f)) m)"
  unfolding gen_crossing_def Let_def by (intro scan_ok)

lemma gen_diagonal_ok:
  "(\<forall>m\<in>set vec. move_ok b (piece_side (get_pos b f)) m) \<Longrightarrow>
     (\<forall>m\<in>set (gen_diagonal b f vec). move_ok b (piece_side (get_pos b f)) m)"
  unfolding gen_diagonal_def Let_def by (intro scan_ok)


lemma piece_side_P_EO [simp]: "piece_side P_EO = extra"
  by (simp add: piece_side_def piece_defs)

lemma piece_side_P_EE [simp]: "piece_side P_EE = extra"
  by (simp add: piece_side_def piece_defs)

lemma pawn_add_and_check_promote_ok:
  "dest_ok b s t \<Longrightarrow> piece_side (get_pos b f) = s \<Longrightarrow> (\<forall>m\<in>set vec. move_ok b s m) \<Longrightarrow>
     (\<forall>m\<in>set (pawn_add_and_check_promote sd f t cp vec). move_ok b s m)"
  by (simp add: pawn_add_and_check_promote_def move_ok_def Move3_def Move4_def)

lemma pawn_capture_ok:
  assumes "\<forall>m\<in>set vec. move_ok b (piece_side (get_pos b f)) m"
  shows "\<forall>m\<in>set (pawn_capture b sd f dir prow c vec). move_ok b (piece_side (get_pos b f)) m"
proof (cases "piece_side (get b (row f + dir) c) \<noteq> extra
    \<and> piece_side (get b (row f + dir) c) \<noteq> piece_side (get_pos b f)")
  case True
  then have "dest_ok b (piece_side (get_pos b f)) \<lparr>row = row f + dir, col = c\<rparr>"
    by (auto simp: dest_ok_def get_pos_def)
  then show ?thesis
    using True assms pawn_add_and_check_promote_ok [of b "piece_side (get_pos b f)" _ f vec]
    by (simp add: pawn_capture_def Let_def)
next
  case False
  then show ?thesis
    using assms by (auto simp: pawn_capture_def Let_def)
qed

lemma pawn_steps_upper_ok:
  assumes "\<forall>m\<in>set vec. move_ok b (piece_side (get_pos b f)) m"
  shows "\<forall>m\<in>set (pawn_steps_upper b f vec). move_ok b (piece_side (get_pos b f)) m"
proof -
  let ?s = "piece_side (get_pos b f)"
  define v1 where "v1 = (if has_chance_to_do_en_passant b
                then let ep = en_passant_pos b
                     in if row f = row ep \<and> (col f + 1 = col ep \<or> col f - 1 = col ep)
                        then vec @ [Move3 f \<lparr>row = row f + 1, col = col ep\<rparr> en_passant]
                        else vec
                else vec)"
  define v2 where "v2 = (if get b (row f + 1) (col f) = P_EE
                then let v = (if row f = upper_pawn_begin_row \<and> get b (row f + 2) (col f) = P_EE
                              then v1 @ [Move3 f \<lparr>row = row f + 2, col = col f\<rparr> pawn_2_steps]
                              else v1)
                     in pawn_add_and_check_promote upper f \<lparr>row = row f + 1, col = col f\<rparr>
                          (row f + 1 = upper_pawn_promote_row) v
                else v1)"
  have 1: "\<forall>m\<in>set v1. move_ok b ?s m"
    using assms by (auto simp: v1_def Let_def move_ok_def Move3_def)
  have 2: "\<forall>m\<in>set v2. move_ok b ?s m"
  proof (cases "get b (row f + 1) (col f) = P_EE")
    case True
    then have d: "dest_ok b ?s \<lparr>row = row f + 1, col = col f\<rparr>"
      by (simp add: dest_ok_def get_pos_def piece_defs)
    have "\<forall>m\<in>set (if row f = upper_pawn_begin_row \<and> get b (row f + 2) (col f) = P_EE
                              then v1 @ [Move3 f \<lparr>row = row f + 2, col = col f\<rparr> pawn_2_steps]
                              else v1). move_ok b ?s m"
      using 1 by (auto simp: move_ok_def Move3_def get_pos_def)
    then show ?thesis
      using True d pawn_add_and_check_promote_ok [of b ?s _ f]
      by (simp add: v2_def Let_def)
  next
    case False
    then show ?thesis using 1 by (simp add: v2_def)
  qed
  have "pawn_steps_upper b f vec = pawn_capture b upper f 1 upper_pawn_promote_row (col f - 1)
          (pawn_capture b upper f 1 upper_pawn_promote_row (col f + 1) v2)"
    by (simp only: pawn_steps_upper_def v1_def v2_def Let_def)
  then show ?thesis
    using pawn_capture_ok [OF pawn_capture_ok [OF 2]] by simp
qed

lemma pawn_steps_down_ok:
  assumes "\<forall>m\<in>set vec. move_ok b (piece_side (get_pos b f)) m"
  shows "\<forall>m\<in>set (pawn_steps_down b f vec). move_ok b (piece_side (get_pos b f)) m"
proof -
  let ?s = "piece_side (get_pos b f)"
  define v1 where "v1 = (if has_chance_to_do_en_passant b
                then let ep = en_passant_pos b
                     in if row f = row ep \<and> (col f + 1 = col ep \<or> col f - 1 = col ep)
                        then vec @ [Move3 f \<lparr>row = row f - 1, col = col ep\<rparr> en_passant]
                        else vec
                else vec)"
  define v2 where "v2 = (if get b (row f - 1) (col f) = P_EE
                then let v = (if row f = down_pawn_begin_row \<and> get b (row f - 2) (col f) = P_EE
                              then v1 @ [Move3 f \<lparr>row = row f - 2, col = col f\<rparr> pawn_2_steps]
                              else v1)
                     in pawn_add_and_check_promote down f \<lparr>row = row f - 1, col = col f\<rparr>
                          (row f - 1 = down_pawn_promote_row) v
                else v1)"
  have 1: "\<forall>m\<in>set v1. move_ok b ?s m"
    using assms by (auto simp: v1_def Let_def move_ok_def Move3_def)
  have 2: "\<forall>m\<in>set v2. move_ok b ?s m"
  proof (cases "get b (row f - 1) (col f) = P_EE")
    case True
    then have d: "dest_ok b ?s \<lparr>row = row f - 1, col = col f\<rparr>"
      by (simp add: dest_ok_def get_pos_def piece_defs)
    have "\<forall>m\<in>set (if row f = down_pawn_begin_row \<and> get b (row f - 2) (col f) = P_EE
                              then v1 @ [Move3 f \<lparr>row = row f - 2, col = col f\<rparr> pawn_2_steps]
                              else v1). move_ok b ?s m"
      using 1 by (auto simp: move_ok_def Move3_def get_pos_def)
    then show ?thesis
      using True d pawn_add_and_check_promote_ok [of b ?s _ f]
      by (simp add: v2_def Let_def)
  next
    case False
    then show ?thesis using 1 by (simp add: v2_def)
  qed
  have "pawn_steps_down b f vec = pawn_capture b down f (- 1) down_pawn_promote_row (col f - 1)
          (pawn_capture b down f (- 1) down_pawn_promote_row (col f + 1) v2)"
    by (simp only: pawn_steps_down_def v1_def v2_def Let_def)
  then show ?thesis
    using pawn_capture_ok [OF pawn_capture_ok [OF 2]] by simp
qed

lemma king_castling_ok:
  assumes "\<forall>m\<in>set vec. move_ok b (piece_side (get_pos b f)) m"
  shows "\<forall>m\<in>set (king_castling b f vec). move_ok b (piece_side (get_pos b f)) m"
  using assms by (auto simp: king_castling_def Let_def move_ok_def Move3_def)

lemma gen_cell_ok:
  assumes "\<forall>m\<in>set vec. move_ok b s m"
  shows "\<forall>m\<in>set (gen_cell b s vec rc). move_ok b s m"
proof (cases "piece_side (get b (fst rc) (snd rc)) = s")
  case True
  let ?f = "\<lparr>row = fst rc, col = snd rc\<rparr>"
  have s: "piece_side (get_pos b ?f) = s"
    using True by (simp add: get_pos_def)
  have a: "\<forall>m\<in>set vec. move_ok b (piece_side (get_pos b ?f)) m"
    using assms s by simp
  have "\<forall>m\<in>set (gen_cell b s vec rc). move_ok b (piece_side (get_pos b ?f)) m"
    using True a pawn_steps_upper_ok [OF a] pawn_steps_down_ok [OF a] gen_crossing_ok [OF a]
      gen_diagonal_ok [OF a] try_offsets_ok [OF a, of knight_offsets]
      gen_diagonal_ok [OF gen_crossing_ok [OF a]]
      king_castling_ok [OF try_offsets_ok [OF a, of king_offsets]]
    unfolding gen_cell_def Let_def pawn_steps_def rook_steps_def knight_steps_def
        bishop_steps_def queen_steps_def king_steps_def
    by (cases "piece_type (get b (fst rc) (snd rc))"; cases "get_pos b ?f = P_UP") simp_all
  then show ?thesis using s by simp
next
  case False
  then show ?thesis using assms by (simp add: gen_cell_def Let_def)
qed

lemma gen_moves_for_one_side_ok:
  "m \<in> set (gen_moves_for_one_side b s) \<Longrightarrow> move_ok b s m"
proof -
  have "\<forall>m\<in>set (foldl (gen_cell b s) vec cs). move_ok b s m"
    if "\<forall>m\<in>set vec. move_ok b s m" for vec cs
    using that
  proof (induction cs arbitrary: vec)
    case Nil
    then show ?case by simp
  next
    case (Cons c cs)
    show ?case
      using Cons.IH [OF gen_cell_ok [OF Cons.prems, of c]] by simp
  qed
  from this [of "[]" cells] show "m \<in> set (gen_moves_for_one_side b s) \<Longrightarrow> move_ok b s m"
    by (simp add: gen_moves_for_one_side_def)
qed

section \<open>Castling moves\<close>

lemma view_nth:
  assumes "take n (drop i xs) = ys" "j < length ys"
  shows "xs ! (i + j) = ys ! j"
proof -
  have "j < n" "j < length (drop i xs)" using assms by auto
  then have "take n (drop i xs) ! j = xs ! (i + j)"
    by (simp add: nth_take)
  then show ?thesis using assms by simp
qed

lemma can_upper_short_castle_D:
  "can_upper_short_castle b \<Longrightarrow> get_upper_castle_flag b \<and> get b 2 7 = P_EE \<and> get b 2 8 = P_EE \<and> get b 2 9 = P_UR"
  using view_nth [of 3 31 "data b" "''..R''" 0] view_nth [of 3 31 "data b" "''..R''" 1]
    view_nth [of 3 31 "data b" "''..R''" 2]
  by (simp add: can_upper_short_castle_def view_def upper_king_start_pos_def get_def idx_def
      width_def piece_defs split: if_splits)

lemma can_upper_long_castle_D:
  "can_upper_long_castle b \<Longrightarrow> get_upper_castle_flag b \<and> get b 2 2 = P_UR \<and> get b 2 3 = P_EE \<and> get b 2 4 = P_EE \<and> get b 2 5 = P_EE"
  using view_nth [of 4 26 "data b" "''R...''" 0] view_nth [of 4 26 "data b" "''R...''" 1]
    view_nth [of 4 26 "data b" "''R...''" 2] view_nth [of 4 26 "data b" "''R...''" 3]
  by (simp add: can_upper_long_castle_def view_def upper_king_start_pos_def get_def idx_def
      width_def piece_defs split: if_splits)

lemma can_down_short_castle_D:
  "can_down_short_castle b \<Longrightarrow> get_down_castle_flag b \<and> get b 9 7 = P_EE \<and> get b 9 8 = P_EE \<and> get b 9 9 = P_DR"
  using view_nth [of 3 115 "data b" "''..r''" 0] view_nth [of 3 115 "data b" "''..r''" 1]
    view_nth [of 3 115 "data b" "''..r''" 2]
  by (simp add: can_down_short_castle_def view_def down_king_start_pos_def get_def idx_def
      width_def piece_defs split: if_splits)

lemma can_down_long_castle_D:
  "can_down_long_castle b \<Longrightarrow> get_down_castle_flag b \<and> get b 9 2 = P_DR \<and> get b 9 3 = P_EE \<and> get b 9 4 = P_EE \<and> get b 9 5 = P_EE"
  using view_nth [of 4 110 "data b" "''r...''" 0] view_nth [of 4 110 "data b" "''r...''" 1]
    view_nth [of 4 110 "data b" "''r...''" 2] view_nth [of 4 110 "data b" "''r...''" 3]
  by (simp add: can_down_long_castle_def view_def down_king_start_pos_def get_def idx_def
      width_def piece_defs split: if_splits)

text \<open>
  C7, as stated, at a board on which the upper king does not stand on its square of
  origin while the flag is set: the king is on column 4 of row 2, the queen next to it
  on column 5, columns 7 and 8 are empty and the rook is on column 9. The generator
  reads the three squares left of the rook, finds \<^verbatim>\<open>"..R"\<close> and emits the short castling
  of the king, although the queen stands between king and rook.
\<close>

theorem castling_conditions_counterexample:
  "mv_of 2 4 2 6 short_castling \<in> set (gen_moves_for_one_side board_c7 upper)
   \<and> \<not> castling_conditions board_c7 upper (mv_of 2 4 2 6 short_castling)"
  by code_simp

text \<open>
  C7, amended: whenever a short or long castling move of a king that stands on its
  square of origin appears in the list generated for a side, the castling flag of the
  side is set, every square strictly between the king and the rook's square of origin
  is empty, and the rook of the side stands on that square.
\<close>

theorem castling_generated_only_when_allowed:
  assumes "m \<in> set (gen_moves_for_one_side b s)"
    and "moveType m = short_castling \<or> moveType m = long_castling"
    and "from_pos m = king_start_square s"
  shows "castling_conditions b s m"
proof -
  have ok: "move_ok b s m" using assms(1) by (rule gen_moves_for_one_side_ok)
  show ?thesis
  proof (cases "s = upper")
    case True
    show ?thesis
      using assms(2)
    proof
      assume t: "moveType m = short_castling"
      then have "can_upper_short_castle b" using ok True by (simp add: move_ok_def)
      then show ?thesis
        using can_upper_short_castle_D [of b] True t assms(3)
        by (simp add: castling_conditions_def castle_flag_def squares_between_def
            rook_origin_square_def king_start_square_def get_pos_def)
    next
      assume t: "moveType m = long_castling"
      then have "can_upper_long_castle b" using ok True by (simp add: move_ok_def)
      then show ?thesis
        using can_upper_long_castle_D [of b] True t assms(3)
        by (simp add: castling_conditions_def castle_flag_def squares_between_def
            rook_origin_square_def king_start_square_def get_pos_def)
    qed
  next
    case False
    show ?thesis
      using assms(2)
    proof
      assume t: "moveType m = short_castling"
      then have "can_down_short_castle b" using ok False by (simp add: move_ok_def)
      then show ?thesis
        using can_down_short_castle_D [of b] False t assms(3)
        by (simp add: castling_conditions_def castle_flag_def squares_between_def
            rook_origin_square_def king_start_square_def get_pos_def)
    next
      assume t: "moveType m = long_castling"
      then have "can_down_long_castle b" using ok False by (simp add: move_ok_def)
      then show ?thesis
        using can_down_long_castle_D [of b] False t assms(3)
        by (simp add: castling_conditions_def castle_flag_def squares_between_def
            rook_origin_square_def king_start_square_def get_pos_def)
    qed
  qed
qed

theorem castling_generated_only_when_allowed_witness:
  "mv_of 2 6 2 8 short_castling \<in> set (gen_moves_for_one_side board_c7w upper)
   \<and> from_pos (mv_of 2 6 2 8 short_castling) = king_start_square upper
   \<and> castling_conditions board_c7w upper (mv_of 2 6 2 8 short_castling)"
proof -
  have 1: "mv_of 2 6 2 8 short_castling \<in> set (gen_moves_for_one_side board_c7w upper)"
    by code_simp
  have 2: "moveType (mv_of 2 6 2 8 short_castling) = short_castling
      \<or> moveType (mv_of 2 6 2 8 short_castling) = long_castling"
    by (simp add: mv_of_def Move3_def)
  have 3: "from_pos (mv_of 2 6 2 8 short_castling) = king_start_square upper"
    by (simp add: mv_of_def Move3_def king_start_square_def)
  show ?thesis
    using castling_generated_only_when_allowed [OF 1 2 3] 1 3 by simp
qed


section \<open>Games\<close>

lemma play_cell_sound: "play_cell b ms = Some b' \<Longrightarrow> play b ms = Some b'"
proof (induction ms arbitrary: b)
  case Nil
  then show ?case by simp
next
  case (Cons x ms)
  obtain s mv where x: "x = (s, mv)" by (cases x)
  show ?case
    using Cons.prems Cons.IH [of "move b mv"] gen_moves_for_one_side_cell [of "row (from_pos mv)" "col (from_pos mv)" mv b s]
    unfolding x by (auto simp: Let_def split: if_splits)
qed

lemma play_cell_case:
  assumes "case play_cell b ms of None \<Rightarrow> False | Some b' \<Rightarrow> P b'"
    and "\<And>b'. P b' \<Longrightarrow> Q b'"
  shows "case play b ms of None \<Rightarrow> False | Some b' \<Rightarrow> Q b'"
proof (cases "play_cell b ms")
  case None
  then show ?thesis using assms(1) by simp
next
  case (Some b')
  then show ?thesis
    using assms play_cell_sound [OF Some] by simp
qed

section \<open>Destinations of the generated moves\<close>

text \<open>
  A move of kind normal, promotion or double step is appended only after the test of
  its destination: the square is not off the board and holds no piece of the side.
\<close>

lemma gen_destination_ok:
  assumes "m \<in> set (gen_moves_for_one_side b s)" and "s = upper \<or> s = down"
    and "moveType m = normal \<or> moveType m = pawn_move_and_promote \<or> moveType m = pawn_2_steps"
  shows "get_pos b (to_pos m) \<noteq> P_EO \<and> piece_side (get_pos b (to_pos m)) \<noteq> s"
proof -
  have ne: "P_EE \<noteq> P_EO" by (simp add: piece_defs)
  have "move_ok b s m" using assms(1) by (rule gen_moves_for_one_side_ok)
  then show ?thesis
    using assms(2,3) ne by (auto simp: move_ok_def dest_ok_def)
qed

text \<open>
  C4 at a position of play. After \<open>game1\<close> every border cell still holds the off-board
  sentinel, the recorded en-passant target decodes to row 5, column 10, and the list
  generated for the down side holds an en-passant move of the pawn on row 5, column 9
  to row 4, column 10: a border cell. The destination of an en-passant move is never
  tested, and the target that \<^verbatim>\<open>Board::move\<close> records is not the square the pawn skipped
  (see C5).
\<close>

theorem gen_en_passant_targets_off_board:
  "case play reset game1 of None \<Rightarrow> False
   | Some b \<Rightarrow> mv_of 5 9 4 10 en_passant \<in> set (gen_moves_for_one_side b down)
       \<and> get_pos b (to_pos (mv_of 5 9 4 10 en_passant)) = P_EO"
proof (rule play_cell_case)
  show "case play_cell reset game1 of None \<Rightarrow> False
   | Some b \<Rightarrow> mv_of 5 9 4 10 en_passant \<in> set (gen_cell b down [] (5, 9))
       \<and> get_pos b (to_pos (mv_of 5 9 4 10 en_passant)) = P_EO"
    by code_simp
  show "\<And>b'. mv_of 5 9 4 10 en_passant \<in> set (gen_cell b' down [] (5, 9)) \<and>
          get_pos b' (to_pos (mv_of 5 9 4 10 en_passant)) = P_EO \<Longrightarrow>
          mv_of 5 9 4 10 en_passant \<in> set (gen_moves_for_one_side b' down) \<and>
          get_pos b' (to_pos (mv_of 5 9 4 10 en_passant)) = P_EO"
    using gen_moves_for_one_side_cell [of 5 9 _ _ down]
    by (simp add: line_begin_def line_end_def)
qed

section \<open>The en-passant target\<close>

text \<open>
  C5 at two positions of play. After \<open>game2\<close> the upper pawn has made its double step
  from row 3 to row 5 of column 4 and a down pawn stands next to it on row 5, column 3,
  yet no en-passant target is active: \<^verbatim>\<open>Board::move\<close> looks for the enemy pawn on the
  row the pawn left, not on the row it reached. After \<open>game1\<close> the upper pawn has made
  its double step on column 7 with no down pawn on either side of it on row 5, yet a
  target is active, and \<^verbatim>\<open>en_passant_pos\<close> returns row 5, column 10, not the skipped
  square (row 4, column 7): the move stores the square of the pawn it found on row 3,
  and \<^verbatim>\<open>en_passant_pos\<close> adds \<^verbatim>\<open>line_begin\<close> to what was stored.
\<close>

theorem double_step_en_passant_target:
  "(case play reset game2 of None \<Rightarrow> False
    | Some b \<Rightarrow> get b 5 3 = P_DP \<and> \<not> has_chance_to_do_en_passant b)
   \<and> (case play reset game1 of None \<Rightarrow> False
    | Some b \<Rightarrow> get b 5 6 \<noteq> P_DP \<and> get b 5 8 \<noteq> P_DP \<and> has_chance_to_do_en_passant b
        \<and> en_passant_pos b = \<lparr>row = 5, col = 10\<rparr>)"
proof
  show "case play reset game2 of None \<Rightarrow> False
    | Some b \<Rightarrow> get b 5 3 = P_DP \<and> \<not> has_chance_to_do_en_passant b"
    by (rule play_cell_case [where P = "\<lambda>b. get b 5 3 = P_DP \<and> \<not> has_chance_to_do_en_passant b"])
      (code_simp, simp)
  show "case play reset game1 of None \<Rightarrow> False
    | Some b \<Rightarrow> get b 5 6 \<noteq> P_DP \<and> get b 5 8 \<noteq> P_DP \<and> has_chance_to_do_en_passant b
        \<and> en_passant_pos b = \<lparr>row = 5, col = 10\<rparr>"
    by (rule play_cell_case [where P = "\<lambda>b. get b 5 6 \<noteq> P_DP \<and> get b 5 8 \<noteq> P_DP
        \<and> has_chance_to_do_en_passant b \<and> en_passant_pos b = \<lparr>row = 5, col = 10\<rparr>"])
      (code_simp, simp)
qed

lemma char_of_48: "char_of (48 :: int) = CHR ''0''"
  by code_simp

lemma idx_less: "r * 12 + c < 144 \<Longrightarrow> idx r c < 144"
  by (simp add: idx_def width_def)

lemma move_clears_en_passant:
  assumes len: "length (data b) = 148"
    and ty: "moveType m \<noteq> invalid" "moveType m \<noteq> pawn_2_steps"
    and ob: "on_board m"
  shows "\<not> has_chance_to_do_en_passant (move b m)"
proof -
  let ?fr = "row (from_pos m)" and ?fc = "col (from_pos m)"
  let ?tr = "row (to_pos m)" and ?tc = "col (to_pos m)"
  have i: "idx ?fr ?fc < 144" "idx ?tr ?tc < 144" "idx ?fr (?fc - 1) < 144"
    "idx ?fr (?fc - 4) < 144" "idx ?fr (?fc + 1) < 144" "idx ?fr (?fc + 3) < 144"
    "idx ?fr ?tc < 144"
    using ob by (auto simp: on_board_def line_begin_def line_end_def width_def intro!: idx_less)
  have n: "idx ?fr ?fc \<noteq> 146" "idx ?tr ?tc \<noteq> 146" "idx ?fr (?fc - 1) \<noteq> 146"
    "idx ?fr (?fc - 4) \<noteq> 146" "idx ?fr (?fc + 1) \<noteq> 146" "idx ?fr (?fc + 3) \<noteq> 146"
    "idx ?fr ?tc \<noteq> 146"
    using i by auto
  have "data (move b m) ! 146 = CHR ''0''"
    using ty len n
    by (simp add: move_def Let_def reset_en_passant_pos_def set_en_passant_pos_def set_pos_def
        set_cell_def set_upper_castle_flag_def set_down_castle_flag_def
        en_passant_row_pos_def en_passant_col_pos_def upper_castle_flag_pos_def
        down_castle_flag_pos_def char_of_48)
  then show ?thesis
    by (simp add: has_chance_to_do_en_passant_def en_passant_row_pos_def)
qed

text \<open>
  C6 at a position of play. The last move of \<open>game1\<close> is the double step of the upper
  pawn from row 3 to row 5 of column 7. No down pawn stands next to it on row 5, so
  the double step does not qualify for an en-passant capture; yet in the position
  reached the generator lists, for the down side, an en-passant move of the pawn on
  row 5, column 9: a pawn that is not next to the one that moved, to a square that is
  not the one skipped (row 4, column 7). \<^verbatim>\<open>Board::move\<close> looks for the enemy pawn on the
  row the pawn left and records that pawn's square (see C5), and the generator offers
  the capture to whatever pawn stands beside the square decoded from it.
\<close>

theorem en_passant_after_unqualified_double_step:
  "last game1 = (upper, mv_of 3 7 5 7 pawn_2_steps)
   \<and> (case play reset game1 of None \<Rightarrow> False
      | Some b \<Rightarrow> get b 5 7 = P_UP \<and> get b 5 6 \<noteq> P_DP \<and> get b 5 8 \<noteq> P_DP
          \<and> mv_of 5 9 4 10 en_passant \<in> set (gen_moves_for_one_side b down))"
proof
  show "last game1 = (upper, mv_of 3 7 5 7 pawn_2_steps)"
    by (simp add: game1_def)
  show "case play reset game1 of None \<Rightarrow> False
      | Some b \<Rightarrow> get b 5 7 = P_UP \<and> get b 5 6 \<noteq> P_DP \<and> get b 5 8 \<noteq> P_DP
          \<and> mv_of 5 9 4 10 en_passant \<in> set (gen_moves_for_one_side b down)"
  proof (rule play_cell_case)
    show "case play_cell reset game1 of None \<Rightarrow> False
      | Some b \<Rightarrow> get b 5 7 = P_UP \<and> get b 5 6 \<noteq> P_DP \<and> get b 5 8 \<noteq> P_DP
          \<and> mv_of 5 9 4 10 en_passant \<in> set (gen_cell b down [] (5, 9))"
      by code_simp
    show "\<And>b'. get b' 5 7 = P_UP \<and> get b' 5 6 \<noteq> P_DP \<and> get b' 5 8 \<noteq> P_DP
          \<and> mv_of 5 9 4 10 en_passant \<in> set (gen_cell b' down [] (5, 9)) \<Longrightarrow>
          get b' 5 7 = P_UP \<and> get b' 5 6 \<noteq> P_DP \<and> get b' 5 8 \<noteq> P_DP
          \<and> mv_of 5 9 4 10 en_passant \<in> set (gen_moves_for_one_side b' down)"
      using gen_moves_for_one_side_cell [of 5 9 _ _ down]
      by (simp add: line_begin_def line_end_def)
  qed
qed

text \<open>
  What the code does guarantee about the life of a recorded target: a call of
  \<^verbatim>\<open>Board::move\<close> with a move on the board whose type is neither the invalid tag nor a
  double step clears it (lemma \<open>move_clears_en_passant\<close>), so no en-passant move is
  generated in the position such a call leaves.
\<close>

lemma no_en_passant_after_other_move:
  assumes "length (data b) = 148" and "moveType m \<noteq> invalid" and "moveType m \<noteq> pawn_2_steps"
    and "on_board m" and "mv \<in> set (gen_moves_for_one_side (move b m) s)"
  shows "moveType mv \<noteq> en_passant"
proof
  assume e: "moveType mv = en_passant"
  have "move_ok (move b m) s mv"
    using assms(5) by (rule gen_moves_for_one_side_ok)
  then have "has_chance_to_do_en_passant (move b m)"
    using e by (simp add: move_ok_def)
  then show False
    using move_clears_en_passant [OF assms(1) assms(2) assms(3) assms(4)] by simp
qed


section \<open>Undo\<close>

text \<open>
  In the first file \<^verbatim>\<open>move\<close> pushes the whole string and \<^verbatim>\<open>undo\<close> pops it: every generated
  move is taken back exactly, cells, flags, en-passant target and history.
\<close>

lemma undo_move_generated:
  "m \<in> set (gen_moves_for_one_side b s) \<Longrightarrow> undo (move b m) = b"
proof -
  assume "m \<in> set (gen_moves_for_one_side b s)"
  then have "move_ok b s m" by (rule gen_moves_for_one_side_ok)
  then have "moveType m \<noteq> invalid" by (auto simp: move_ok_def)
  then show ?thesis by (rule undo_move)
qed

text \<open>
  C1 for the second file, at a position of play: after three moves from the starting
  position the upper king may step to row 3, column 5; the generator lists the move.
  \<^verbatim>\<open>ChessBoard::move\<close> clears \<^verbatim>\<open>canUpperCastle\<close> because the king moves;
  \<^verbatim>\<open>ChessBoard::undo\<close> puts the pieces back but sets the flag again only when the move
  undone is a castling. The cells are restored, the castling flag is not.
\<close>

theorem undo_cb_loses_castling_flag:
  "case play_cb (ChessBoard_of default_rows) game_cb1 of None \<Rightarrow> False
   | Some cb \<Rightarrow> mv_cb 2 6 3 5 NORMAL \<in> set (gen_one_side_moves cb PS_UPPER)
       \<and> canUpperCastle cb
       \<and> \<not> canUpperCastle (undo_cb (move_cb cb (mv_cb 2 6 3 5 NORMAL)))
       \<and> data_cb (undo_cb (move_cb cb (mv_cb 2 6 3 5 NORMAL))) = data_cb cb"
  by code_simp

section \<open>King steps\<close>

text \<open>In the first file the eight offsets of \<^verbatim>\<open>king_steps\<close> are the eight neighbours,
  each once.\<close>

lemma king_offsets_exact:
  "distinct king_offsets \<and> length king_offsets = 8 \<and>
   set king_offsets = {(dr, dc). dr \<in> {- 1, 0, 1} \<and> dc \<in> {- 1, 0, 1} \<and> (dr, dc) \<noteq> (0, 0)}"
  by (auto simp: king_offsets_def)

text \<open>
  C9 for the second file, at a position of play: the upper pawn in front of the king
  has moved, the square in front of the king (row 3, column 6) is empty, and
  \<^verbatim>\<open>gen_moves_king\<close> generates nothing for the king: the step is not in the list of the
  side. Its eight calls use the four diagonal offsets, each twice. On the same position
  \<^verbatim>\<open>king_steps\<close> of the first file generates the step.
\<close>

theorem gen_moves_king_skips_straight_steps:
  "(case play_cb (ChessBoard_of default_rows) game_cb2 of None \<Rightarrow> False
    | Some cb \<Rightarrow> get_cb cb 2 6 = P_UK_cb \<and> get_cb cb 3 6 = P_EE_cb
        \<and> gen_moves_king cb \<lparr>row = 2, col = 6\<rparr> [] = []
        \<and> mv_cb 2 6 3 6 NORMAL \<notin> set (gen_one_side_moves cb PS_UPPER))
   \<and> (case play reset game3 of None \<Rightarrow> False
    | Some b \<Rightarrow> king_steps b \<lparr>row = 2, col = 6\<rparr> [] = [mv_of 2 6 3 6 normal])
   \<and> set king_offsets_cb = {(1, - 1), (1, 1), (- 1, - 1), (- 1, 1)}
   \<and> \<not> distinct king_offsets_cb"
proof -
  have 1: "case play_cb (ChessBoard_of default_rows) game_cb2 of None \<Rightarrow> False
    | Some cb \<Rightarrow> get_cb cb 2 6 = P_UK_cb \<and> get_cb cb 3 6 = P_EE_cb
        \<and> gen_moves_king cb \<lparr>row = 2, col = 6\<rparr> [] = []
        \<and> mv_cb 2 6 3 6 NORMAL \<notin> set (gen_one_side_moves cb PS_UPPER)"
    by code_simp
  have 2: "case play reset game3 of None \<Rightarrow> False
    | Some b \<Rightarrow> king_steps b \<lparr>row = 2, col = 6\<rparr> [] = [mv_of 2 6 3 6 normal]"
    by (rule play_cell_case [where P = "\<lambda>b. king_steps b \<lparr>row = 2, col = 6\<rparr> [] = [mv_of 2 6 3 6 normal]"])
      (code_simp, simp)
  have 3: "set king_offsets_cb = {(1, - 1), (1, 1), (- 1, - 1), (- 1, 1)}"
    by (auto simp: king_offsets_cb_def)
  have 4: "\<not> distinct king_offsets_cb"
    by (simp add: king_offsets_cb_def)
  show ?thesis using 1 2 3 4 by blast
qed

section \<open>An empty list of root moves\<close>

lemma split_vector_empty: "split_vector [] n = Inl OutOfRange"
proof -
  have "(2 ^ 64 - 1 :: nat) \<noteq> 0" by simp
  then obtain k where k: "(2 ^ 64 - 1 :: nat) = Suc k"
    by (cases "2 ^ 64 - 1 :: nat") simp_all
  have "split_vector [] n = split_loop [] 1 0 (2 ^ 64 - 1) []"
    by (simp add: split_vector_def)
  also have "\<dots> = Inl OutOfRange"
    unfolding k by simp
  finally show ?thesis .
qed

lemma gen_best_for_empty:
  assumes "gen_moves_for_one_side b s = []" and "s = upper \<or> s = down"
  shows "gen_best_for ev b s d = (Move_default, b)"
  using assms by (auto simp: gen_best_for_def)

lemma gen_best_for_parallel_empty:
  assumes "gen_moves_for_one_side b s = []" and "s = upper \<or> s = down"
  shows "gen_best_for_parallel ev b s d = Inl OutOfRange"
  using assms by (auto simp: gen_best_for_parallel_def split_vector_empty)

text \<open>
  C8 at a board on which the upper side has no piece: the generator returns the empty
  list. The sequential search returns the default move, whose type is the invalid
  tag, and leaves the board as it was. In the parallel search \<^verbatim>\<open>split_vector\<close> sets
  \<^verbatim>\<open>chunkNum\<close> to the size of the list, \<open>0\<close>; \<^verbatim>\<open>chunkNum - 1\<close> wraps around and the first
  pass of its loop takes a span of one element from the empty list.
\<close>

theorem gen_best_for_no_moves:
  "gen_moves_for_one_side board_c8 upper = []
   \<and> gen_best_for ev board_c8 upper d = (Move_default, board_c8)
   \<and> moveType Move_default = invalid
   \<and> gen_best_for_parallel ev board_c8 upper d = Inl OutOfRange"
proof -
  have e: "gen_moves_for_one_side board_c8 upper = []"
    by code_simp
  show ?thesis
    using e by (simp add: gen_best_for_def gen_best_for_parallel_def split_vector_empty Move_default_def)
qed


section \<open>Alpha-beta search and plain minimax\<close>

lemma gen_moves_valid:
  "m \<in> set (gen_moves_for_one_side b s) \<Longrightarrow> moveType m \<noteq> invalid"
  using gen_moves_for_one_side_ok [of m b s] by (auto simp: move_ok_def)

lemma max_loop_board:
  assumes c: "\<And>b' a be. snd (child b' a be) = b'"
  shows "\<forall>mv\<in>set mvs. moveType mv \<noteq> invalid \<Longrightarrow>
    snd (max_loop child board mvs bestVal alpha beta) = board"
  by (induction mvs arbitrary: bestVal alpha) (simp_all add: Let_def c undo_move)

lemma min_loop_board:
  assumes c: "\<And>b' a be. snd (child b' a be) = b'"
  shows "\<forall>mv\<in>set mvs. moveType mv \<noteq> invalid \<Longrightarrow>
    snd (min_loop child board mvs bestVal alpha beta) = board"
  by (induction mvs arbitrary: bestVal beta) (simp_all add: Let_def c undo_move)

lemma min_max_board: "snd (min_max ev b d alpha beta isMax) = b"
proof (induction d arbitrary: b alpha beta isMax)
  case 0
  show ?case by simp
next
  case (Suc d)
  have v: "\<forall>mv\<in>set (gen_moves_for_one_side b s). moveType mv \<noteq> invalid" for s
    using gen_moves_valid by blast
  have 1: "snd (max_loop (\<lambda>b a be. min_max ev b d a be False) b
      (gen_moves_for_one_side b down) LOWER_BOUND alpha beta) = b"
    by (rule max_loop_board) (simp_all add: Suc.IH v)
  have 2: "snd (min_loop (\<lambda>b a be. min_max ev b d a be True) b
      (gen_moves_for_one_side b upper) UPPER_BOUND alpha beta) = b"
    by (rule min_loop_board) (simp_all add: Suc.IH v)
  show ?case using 1 2 by simp
qed

lemma max_loop_plain_board:
  assumes c: "\<And>b'. snd (childP b') = b'"
  shows "\<forall>mv\<in>set mvs. moveType mv \<noteq> invalid \<Longrightarrow>
    snd (max_loop_plain childP board mvs bestVal) = board"
  by (induction mvs arbitrary: bestVal) (simp_all add: Let_def c undo_move)

lemma min_loop_plain_board:
  assumes c: "\<And>b'. snd (childP b') = b'"
  shows "\<forall>mv\<in>set mvs. moveType mv \<noteq> invalid \<Longrightarrow>
    snd (min_loop_plain childP board mvs bestVal) = board"
  by (induction mvs arbitrary: bestVal) (simp_all add: Let_def c undo_move)

lemma minimax_board: "snd (minimax ev b d isMax) = b"
proof (induction d arbitrary: b isMax)
  case 0
  show ?case by simp
next
  case (Suc d)
  have v: "\<forall>mv\<in>set (gen_moves_for_one_side b s). moveType mv \<noteq> invalid" for s
    using gen_moves_valid by blast
  have 1: "snd (max_loop_plain (\<lambda>b. minimax ev b d False) b
      (gen_moves_for_one_side b down) LOWER_BOUND) = b"
    by (rule max_loop_plain_board) (simp_all add: Suc.IH v)
  have 2: "snd (min_loop_plain (\<lambda>b. minimax ev b d True) b
      (gen_moves_for_one_side b upper) UPPER_BOUND) = b"
    by (rule min_loop_plain_board) (simp_all add: Suc.IH v)
  show ?case using 1 2 by simp
qed

lemma max_loop_plain_ge: "p \<le> fst (max_loop_plain childP board mvs p)"
proof (induction mvs arbitrary: p board)
  case Nil
  show ?case by simp
next
  case (Cons mv mvs)
  have "max p (fst (childP (move board mv)))
      \<le> fst (max_loop_plain childP (undo (snd (childP (move board mv)))) mvs
               (max p (fst (childP (move board mv)))))"
    by (rule Cons.IH)
  then show ?case by (simp add: Let_def)
qed

lemma min_loop_plain_le: "fst (min_loop_plain childP board mvs p) \<le> p"
proof (induction mvs arbitrary: p board)
  case Nil
  show ?case by simp
next
  case (Cons mv mvs)
  have "fst (min_loop_plain childP (undo (snd (childP (move board mv)))) mvs
               (min p (fst (childP (move board mv)))))
      \<le> min p (fst (childP (move board mv)))"
    by (rule Cons.IH)
  then show ?case by (simp add: Let_def)
qed

lemma max_loop_soft:
  fixes child :: "Board \<Rightarrow> real \<Rightarrow> real \<Rightarrow> real \<times> Board" and childP :: "Board \<Rightarrow> real \<times> Board"
  assumes c: "\<And>b' a be. snd (child b' a be) = b'" and cP: "\<And>b'. snd (childP b') = b'"
  shows "\<forall>mv\<in>set mvs. moveType mv \<noteq> invalid \<Longrightarrow>
    \<forall>mv\<in>set mvs. \<forall>a. alpha0 \<le> a \<and> a < beta \<longrightarrow>
       soft (fst (childP (move board mv))) (fst (child (move board mv) a beta)) a beta \<Longrightarrow>
    a = max alpha0 q \<Longrightarrow> a < beta \<Longrightarrow>
    (q \<le> alpha0 \<longrightarrow> p \<le> q) \<and> (alpha0 < q \<longrightarrow> p = q) \<Longrightarrow>
    soft (fst (max_loop_plain childP board mvs p)) (fst (max_loop child board mvs q a beta))
      alpha0 beta"
proof (induction mvs arbitrary: p q a)
  case Nil
  then show ?case by (auto simp: soft_def)
next
  case (Cons mv mvs)
  define vP where "vP = fst (childP (move board mv))"
  define cA where "cA = fst (child (move board mv) a beta)"
  have valid: "moveType mv \<noteq> invalid" using Cons.prems(1) by simp
  have s: "soft vP cA a beta"
    using Cons.prems(2,3,4) by (simp add: vP_def cA_def)
  have pl: "max_loop_plain childP board (mv # mvs) p = max_loop_plain childP board mvs (max p vP)"
    by (simp add: Let_def cP undo_move [OF valid] vP_def)
  have ab: "max_loop child board (mv # mvs) q a beta =
      (if beta \<le> max a (max q cA) then (max q cA, board)
       else max_loop child board mvs (max q cA) (max a (max q cA)) beta)"
    by (simp add: Let_def c undo_move [OF valid] cA_def)
  show ?case
  proof (cases "beta \<le> max a (max q cA)")
    case True
    have "max p vP \<le> fst (max_loop_plain childP board mvs (max p vP))"
      by (rule max_loop_plain_ge)
    then show ?thesis
      using True s Cons.prems(3,4,5) unfolding pl ab soft_def by (auto simp: max_def split: if_splits)
  next
    case False
    have "soft (fst (max_loop_plain childP board mvs (max p vP)))
        (fst (max_loop child board mvs (max q cA) (max a (max q cA)) beta)) alpha0 beta"
    proof (rule Cons.IH)
      show "\<forall>mv\<in>set mvs. moveType mv \<noteq> invalid" using Cons.prems(1) by simp
      show "\<forall>mv\<in>set mvs. \<forall>a. alpha0 \<le> a \<and> a < beta \<longrightarrow>
         soft (fst (childP (move board mv))) (fst (child (move board mv) a beta)) a beta"
        using Cons.prems(2) by simp
      show "max a (max q cA) = max alpha0 (max q cA)"
        using Cons.prems(3) by (auto simp: max_def)
      show "max a (max q cA) < beta" using False by auto
      show "(max q cA \<le> alpha0 \<longrightarrow> max p vP \<le> max q cA) \<and> (alpha0 < max q cA \<longrightarrow> max p vP = max q cA)"
        using False s Cons.prems(3,4,5) unfolding soft_def by (auto simp: max_def split: if_splits)
    qed
    then show ?thesis
      using False unfolding pl ab by simp
  qed
qed


lemma min_loop_soft:
  fixes child :: "Board \<Rightarrow> real \<Rightarrow> real \<Rightarrow> real \<times> Board" and childP :: "Board \<Rightarrow> real \<times> Board"
  assumes c: "\<And>b' a be. snd (child b' a be) = b'" and cP: "\<And>b'. snd (childP b') = b'"
  shows "\<forall>mv\<in>set mvs. moveType mv \<noteq> invalid \<Longrightarrow>
    \<forall>mv\<in>set mvs. \<forall>be. alpha < be \<and> be \<le> beta0 \<longrightarrow>
       soft (fst (childP (move board mv))) (fst (child (move board mv) alpha be)) alpha be \<Longrightarrow>
    be = min beta0 q \<Longrightarrow> alpha < be \<Longrightarrow>
    (beta0 \<le> q \<longrightarrow> q \<le> p) \<and> (q < beta0 \<longrightarrow> p = q) \<Longrightarrow>
    soft (fst (min_loop_plain childP board mvs p)) (fst (min_loop child board mvs q alpha be))
      alpha beta0"
proof (induction mvs arbitrary: p q be)
  case Nil
  then show ?case by (auto simp: soft_def)
next
  case (Cons mv mvs)
  define vP where "vP = fst (childP (move board mv))"
  define cA where "cA = fst (child (move board mv) alpha be)"
  have valid: "moveType mv \<noteq> invalid" using Cons.prems(1) by simp
  have s: "soft vP cA alpha be"
    using Cons.prems(2,3,4) by (simp add: vP_def cA_def)
  have pl: "min_loop_plain childP board (mv # mvs) p = min_loop_plain childP board mvs (min p vP)"
    by (simp add: Let_def cP undo_move [OF valid] vP_def)
  have ab: "min_loop child board (mv # mvs) q alpha be =
      (if min be (min q cA) \<le> alpha then (min q cA, board)
       else min_loop child board mvs (min q cA) alpha (min be (min q cA)))"
    by (simp add: Let_def c undo_move [OF valid] cA_def)
  show ?case
  proof (cases "min be (min q cA) \<le> alpha")
    case True
    have "fst (min_loop_plain childP board mvs (min p vP)) \<le> min p vP"
      by (rule min_loop_plain_le)
    then show ?thesis
      using True s Cons.prems(3,4,5) unfolding pl ab soft_def by (auto simp: min_def split: if_splits)
  next
    case False
    have "soft (fst (min_loop_plain childP board mvs (min p vP)))
        (fst (min_loop child board mvs (min q cA) alpha (min be (min q cA)))) alpha beta0"
    proof (rule Cons.IH)
      show "\<forall>mv\<in>set mvs. moveType mv \<noteq> invalid" using Cons.prems(1) by simp
      show "\<forall>mv\<in>set mvs. \<forall>be. alpha < be \<and> be \<le> beta0 \<longrightarrow>
         soft (fst (childP (move board mv))) (fst (child (move board mv) alpha be)) alpha be"
        using Cons.prems(2) by simp
      show "min be (min q cA) = min beta0 (min q cA)"
        using Cons.prems(3) by (auto simp: min_def)
      show "alpha < min be (min q cA)" using False by auto
      show "(beta0 \<le> min q cA \<longrightarrow> min q cA \<le> min p vP) \<and> (min q cA < beta0 \<longrightarrow> min p vP = min q cA)"
        using False s Cons.prems(3,4,5) unfolding soft_def by (auto simp: min_def split: if_splits)
    qed
    then show ?thesis
      using False unfolding pl ab by simp
  qed
qed

lemma min_max_soft:
  "LOWER_BOUND \<le> alpha \<Longrightarrow> alpha < beta \<Longrightarrow> beta \<le> UPPER_BOUND \<Longrightarrow>
     soft (fst (minimax ev b d isMax)) (fst (min_max ev b d alpha beta isMax)) alpha beta"
proof (induction d arbitrary: b alpha beta isMax)
  case 0
  show ?case by (simp add: soft_def)
next
  case (Suc d)
  have v: "\<forall>mv\<in>set (gen_moves_for_one_side b s). moveType mv \<noteq> invalid" for s
    using gen_moves_valid by blast
  show ?case
  proof (cases isMax)
    case True
    have "soft (fst (max_loop_plain (\<lambda>b. minimax ev b d False) b (gen_moves_for_one_side b down) LOWER_BOUND))
        (fst (max_loop (\<lambda>b a be. min_max ev b d a be False) b (gen_moves_for_one_side b down)
               LOWER_BOUND alpha beta)) alpha beta"
    proof (rule max_loop_soft)
      show "\<And>b' a be. snd (min_max ev b' d a be False) = b'" by (rule min_max_board)
      show "\<And>b'. snd (minimax ev b' d False) = b'" by (rule minimax_board)
      show "\<forall>mv\<in>set (gen_moves_for_one_side b down). moveType mv \<noteq> invalid" by (rule v)
      show "\<forall>mv\<in>set (gen_moves_for_one_side b down). \<forall>a. alpha \<le> a \<and> a < beta \<longrightarrow>
          soft (fst (minimax ev (move b mv) d False)) (fst (min_max ev (move b mv) d a beta False)) a beta"
        using Suc.IH Suc.prems by auto
      show "alpha = max alpha LOWER_BOUND" using Suc.prems by simp
      show "alpha < beta" by (rule Suc.prems)
      show "(LOWER_BOUND \<le> alpha \<longrightarrow> LOWER_BOUND \<le> LOWER_BOUND) \<and> (alpha < LOWER_BOUND \<longrightarrow> LOWER_BOUND = LOWER_BOUND)"
        by simp
    qed
    then show ?thesis using True by simp
  next
    case False
    have "soft (fst (min_loop_plain (\<lambda>b. minimax ev b d True) b (gen_moves_for_one_side b upper) UPPER_BOUND))
        (fst (min_loop (\<lambda>b a be. min_max ev b d a be True) b (gen_moves_for_one_side b upper)
               UPPER_BOUND alpha beta)) alpha beta"
    proof (rule min_loop_soft)
      show "\<And>b' a be. snd (min_max ev b' d a be True) = b'" by (rule min_max_board)
      show "\<And>b'. snd (minimax ev b' d True) = b'" by (rule minimax_board)
      show "\<forall>mv\<in>set (gen_moves_for_one_side b upper). moveType mv \<noteq> invalid" by (rule v)
      show "\<forall>mv\<in>set (gen_moves_for_one_side b upper). \<forall>be. alpha < be \<and> be \<le> beta \<longrightarrow>
          soft (fst (minimax ev (move b mv) d True)) (fst (min_max ev (move b mv) d alpha be True)) alpha be"
        using Suc.IH Suc.prems by auto
      show "beta = min beta UPPER_BOUND" using Suc.prems by simp
      show "alpha < beta" by (rule Suc.prems)
      show "(beta \<le> UPPER_BOUND \<longrightarrow> UPPER_BOUND \<le> UPPER_BOUND) \<and> (UPPER_BOUND < beta \<longrightarrow> UPPER_BOUND = UPPER_BOUND)"
        by simp
    qed
    then show ?thesis using False by simp
  qed
qed

lemma max_loop_plain_le:
  "\<forall>b'. fst (childP b') \<le> u \<Longrightarrow> p \<le> u \<Longrightarrow> fst (max_loop_plain childP board mvs p) \<le> u"
  by (induction mvs arbitrary: p board) (simp_all add: Let_def)

lemma min_loop_plain_ge:
  "\<forall>b'. l \<le> fst (childP b') \<Longrightarrow> l \<le> p \<Longrightarrow> l \<le> fst (min_loop_plain childP board mvs p)"
  by (induction mvs arbitrary: p board) (simp_all add: Let_def)

lemma minimax_bounds:
  assumes "bounded_scores ev"
  shows "LOWER_BOUND \<le> fst (minimax ev b d isMax) \<and> fst (minimax ev b d isMax) \<le> UPPER_BOUND"
proof (induction d arbitrary: b isMax)
  case 0
  show ?case using assms by (simp add: bounded_scores_def)
next
  case (Suc d)
  have lu: "LOWER_BOUND \<le> UPPER_BOUND" by (simp add: LOWER_BOUND_def UPPER_BOUND_def)
  show ?case
  proof (cases isMax)
    case True
    have "LOWER_BOUND \<le> fst (max_loop_plain (\<lambda>b. minimax ev b d False) b (gen_moves_for_one_side b down) LOWER_BOUND)"
      by (rule max_loop_plain_ge)
    moreover have "fst (max_loop_plain (\<lambda>b. minimax ev b d False) b (gen_moves_for_one_side b down) LOWER_BOUND) \<le> UPPER_BOUND"
      by (rule max_loop_plain_le) (simp_all add: Suc.IH lu)
    ultimately show ?thesis using True by simp
  next
    case False
    have "fst (min_loop_plain (\<lambda>b. minimax ev b d True) b (gen_moves_for_one_side b upper) UPPER_BOUND) \<le> UPPER_BOUND"
      by (rule min_loop_plain_le)
    moreover have "LOWER_BOUND \<le> fst (min_loop_plain (\<lambda>b. minimax ev b d True) b (gen_moves_for_one_side b upper) UPPER_BOUND)"
      by (rule min_loop_plain_ge) (simp_all add: Suc.IH lu)
    ultimately show ?thesis using False by simp
  qed
qed

lemma min_max_full_window:
  assumes "bounded_scores ev"
  shows "fst (min_max ev b d LOWER_BOUND UPPER_BOUND isMax) = fst (minimax ev b d isMax)"
proof -
  have "soft (fst (minimax ev b d isMax)) (fst (min_max ev b d LOWER_BOUND UPPER_BOUND isMax))
      LOWER_BOUND UPPER_BOUND"
    by (rule min_max_soft) (simp_all add: LOWER_BOUND_def UPPER_BOUND_def)
  then show ?thesis
    using minimax_bounds [OF assms, of b d isMax] unfolding soft_def by linarith
qed

lemma gen_c2: "gen_moves_for_one_side board_c2 down =
    [mv_of 8 2 6 2 pawn_2_steps, mv_of 8 2 7 2 normal, mv_of 9 6 8 5 normal, mv_of 9 6 8 6 normal,
     mv_of 9 6 8 7 normal, mv_of 9 6 9 5 normal, mv_of 9 6 9 7 normal]"
  by code_simp

lemma ev_c2_children:
  "map (\<lambda>m. (get (move board_c2 m) 6 2 = P_DP, get (move board_c2 m) 7 2 = P_DP))
     [mv_of 8 2 6 2 pawn_2_steps, mv_of 8 2 7 2 normal, mv_of 9 6 8 5 normal, mv_of 9 6 8 6 normal,
      mv_of 9 6 8 7 normal, mv_of 9 6 9 5 normal, mv_of 9 6 9 7 normal]
   = [(True, False), (False, True), (False, False), (False, False), (False, False), (False, False), (False, False)]"
  by code_simp



lemma max_loop_plain_foldl:
  assumes cP: "\<And>b'. snd (childP b') = b'"
  shows "\<forall>mv\<in>set mvs. moveType mv \<noteq> invalid \<Longrightarrow>
    fst (max_loop_plain childP board mvs p) = foldl max p (map (\<lambda>mv. fst (childP (move board mv))) mvs)"
  by (induction mvs arbitrary: p) (simp_all add: Let_def cP undo_move)

lemma max_loop_first_cut:
  assumes c: "\<And>b' a be. snd (child b' a be) = b'" and "moveType mv \<noteq> invalid"
    and "beta \<le> max a (max q (fst (child (move board mv) a beta)))"
  shows "max_loop child board (mv # mvs) q a beta = (max q (fst (child (move board mv) a beta)), board)"
  using assms(2,3) by (simp add: Let_def c undo_move)

lemma ev_c2_values:
  "map (\<lambda>m. ev_c2 (move board_c2 m)) (gen_moves_for_one_side board_c2 down)
     = [6000000, 7000000, 0, 0, 0, 0, 0]"
  using ev_c2_children unfolding gen_c2 by (simp add: ev_c2_def piece_defs)

text \<open>
  C2, as stated, at \<open>board_c2\<close> with depth 1 and the down side to move: the first move
  generated is the double step of the pawn, valued six million. That is above
  \<^verbatim>\<open>UPPER_BOUND\<close>, so \<^verbatim>\<open>alpha >= beta\<close> holds after the first move and the loop ends with
  six million; without the early exit the single step, valued seven million, is seen
  too.
\<close>

theorem min_max_differs_from_minimax:
  "fst (min_max ev_c2 board_c2 1 LOWER_BOUND UPPER_BOUND True) = 6000000
   \<and> fst (minimax ev_c2 board_c2 1 True) = 7000000"
proof
  have e1: "ev_c2 (move board_c2 (mv_of 8 2 6 2 pawn_2_steps)) = 6000000"
    using ev_c2_values unfolding gen_c2 by simp
  have "max_loop (\<lambda>b a be. min_max ev_c2 b 0 a be False) board_c2
          (gen_moves_for_one_side board_c2 down) LOWER_BOUND LOWER_BOUND UPPER_BOUND
        = (max LOWER_BOUND (fst (min_max ev_c2 (move board_c2 (mv_of 8 2 6 2 pawn_2_steps)) 0
              LOWER_BOUND UPPER_BOUND False)), board_c2)"
    unfolding gen_c2
    by (rule max_loop_first_cut)
      (simp_all add: e1 mv_of_def [symmetric] LOWER_BOUND_def UPPER_BOUND_def, simp add: mv_of_def Move3_def)
  then show "fst (min_max ev_c2 board_c2 1 LOWER_BOUND UPPER_BOUND True) = 6000000"
    by (simp add: e1 LOWER_BOUND_def)
  have "fst (max_loop_plain (\<lambda>b. minimax ev_c2 b 0 False) board_c2
          (gen_moves_for_one_side board_c2 down) LOWER_BOUND)
      = foldl max LOWER_BOUND (map (\<lambda>mv. fst (minimax ev_c2 (move board_c2 mv) 0 False))
          (gen_moves_for_one_side board_c2 down))"
    by (rule max_loop_plain_foldl) (simp_all add: gen_moves_valid)
  also have "\<dots> = foldl max LOWER_BOUND [6000000, 7000000, 0, 0, 0, 0, 0]"
    using ev_c2_values by simp
  also have "\<dots> = 7000000"
    by (simp add: LOWER_BOUND_def)
  finally show "fst (minimax ev_c2 board_c2 1 True) = 7000000"
    by simp
qed


text \<open>
  C2, amended: when every score the evaluation returns lies between \<^verbatim>\<open>LOWER_BOUND\<close> and
  \<^verbatim>\<open>UPPER_BOUND\<close>, then for every board, every depth and both values of the flag
  \<^verbatim>\<open>min_max\<close> called with the window \<^verbatim>\<open>(LOWER_BOUND, UPPER_BOUND)\<close> returns the value of
  plain minimax, and both leave the board as they found it.
\<close>

theorem min_max_eq_minimax:
  assumes "bounded_scores ev"
  shows "min_max ev b d LOWER_BOUND UPPER_BOUND isMax = minimax ev b d isMax"
  using min_max_full_window [OF assms, of b d isMax] min_max_board [of ev b d LOWER_BOUND UPPER_BOUND isMax]
    minimax_board [of ev b d isMax]
  by (simp add: prod_eq_iff)

theorem min_max_eq_minimax_witness:
  "bounded_scores (\<lambda>b. 0) \<and>
   min_max (\<lambda>b. 0) reset 2 LOWER_BOUND UPPER_BOUND True = minimax (\<lambda>b. 0) reset 2 True"
proof -
  have b: "bounded_scores (\<lambda>b. 0)"
    by (simp add: bounded_scores_def LOWER_BOUND_def UPPER_BOUND_def)
  show ?thesis using min_max_eq_minimax [OF b, of reset 2 True] b by simp
qed


section \<open>The parallel root search\<close>

text \<open>
  Each task runs the root loop of the sequential search on its chunk, from the initial
  value; the last loop keeps the last chunk whose value is at least as good as the
  best so far. When no value lies beyond the initial one, running the root loop over a
  chunk from the initial value and then comparing with the best so far gives what the
  root loop gives when it enters the chunk with the best so far: so the chunks can be
  joined.
\<close>

lemma root_min_loop_board:
  assumes c: "\<And>b'. snd (child b') = b'"
  shows "\<forall>mv\<in>set mvs. moveType mv \<noteq> invalid \<Longrightarrow>
    snd (snd (root_min_loop child board mvs minValue bestMove)) = board"
  by (induction mvs arbitrary: minValue bestMove) (simp_all add: Let_def c undo_move)

lemma root_min_loop_Cons:
  assumes c: "\<And>b'. snd (child b') = b'" and v: "moveType mv \<noteq> invalid"
  shows "root_min_loop child board (mv # mvs) minValue bestMove =
     (if fst (child (move board mv)) \<le> minValue
      then root_min_loop child board mvs (fst (child (move board mv))) mv
      else root_min_loop child board mvs minValue bestMove)"
  by (simp add: Let_def c undo_move [OF v])

lemma root_min_loop_le:
  assumes c: "\<And>b'. snd (child b') = b'"
  shows "\<forall>mv\<in>set mvs. moveType mv \<noteq> invalid \<Longrightarrow>
    fst (snd (root_min_loop child board mvs minValue bestMove)) \<le> minValue"
proof (induction mvs arbitrary: minValue bestMove)
  case Nil
  show ?case by simp
next
  case (Cons mv mvs)
  have v: "moveType mv \<noteq> invalid" and vs: "\<forall>mv\<in>set mvs. moveType mv \<noteq> invalid"
    using Cons.prems by simp_all
  show ?case
    using Cons.IH [OF vs, of "fst (child (move board mv))" mv] Cons.IH [OF vs, of minValue bestMove]
    unfolding root_min_loop_Cons [OF c v] by auto
qed

lemma root_min_loop_append:
  assumes c: "\<And>b'. snd (child b') = b'"
  shows "\<forall>mv\<in>set xs. moveType mv \<noteq> invalid \<Longrightarrow>
    root_min_loop child board (xs @ ys) minValue bestMove =
      root_min_loop child board ys
        (fst (snd (root_min_loop child board xs minValue bestMove)))
        (fst (root_min_loop child board xs minValue bestMove))"
proof (induction xs arbitrary: minValue bestMove)
  case Nil
  show ?case by simp
next
  case (Cons mv xs)
  have v: "moveType mv \<noteq> invalid" and vs: "\<forall>mv\<in>set xs. moveType mv \<noteq> invalid"
    using Cons.prems by simp_all
  show ?case
    using Cons.IH [OF vs]
    unfolding append_Cons root_min_loop_Cons [OF c v] by simp
qed

lemma root_min_loop_rel:
  assumes c: "\<And>b'. snd (child b') = b'"
  shows "\<forall>mv\<in>set ys. moveType mv \<noteq> invalid \<Longrightarrow>
    (vf \<le> mV \<longrightarrow> vc = vf \<and> mc = mf) \<and> (mV < vf \<longrightarrow> vc = mV \<and> mc = bm) \<Longrightarrow>
    (fst (snd (root_min_loop child board ys vf mf)) \<le> mV \<longrightarrow>
       fst (snd (root_min_loop child board ys vc mc)) = fst (snd (root_min_loop child board ys vf mf))
       \<and> fst (root_min_loop child board ys vc mc) = fst (root_min_loop child board ys vf mf))
    \<and> (mV < fst (snd (root_min_loop child board ys vf mf)) \<longrightarrow>
       fst (snd (root_min_loop child board ys vc mc)) = mV
       \<and> fst (root_min_loop child board ys vc mc) = bm)"
proof (induction ys arbitrary: vf mf vc mc)
  case Nil
  then show ?case by simp
next
  case (Cons mv ys)
  have v: "moveType mv \<noteq> invalid" and vs: "\<forall>mv\<in>set ys. moveType mv \<noteq> invalid"
    using Cons.prems(1) by simp_all
  define x where "x = fst (child (move board mv))"
  have f: "root_min_loop child board (mv # ys) vf mf =
      (if x \<le> vf then root_min_loop child board ys x mv else root_min_loop child board ys vf mf)"
    unfolding x_def by (rule root_min_loop_Cons [OF c v])
  have g: "root_min_loop child board (mv # ys) vc mc =
      (if x \<le> vc then root_min_loop child board ys x mv else root_min_loop child board ys vc mc)"
    unfolding x_def by (rule root_min_loop_Cons [OF c v])
  let ?vf' = "if x \<le> vf then x else vf" and ?mf' = "if x \<le> vf then mv else mf"
  let ?vc' = "if x \<le> vc then x else vc" and ?mc' = "if x \<le> vc then mv else mc"
  have r: "(?vf' \<le> mV \<longrightarrow> ?vc' = ?vf' \<and> ?mc' = ?mf') \<and> (mV < ?vf' \<longrightarrow> ?vc' = mV \<and> ?mc' = bm)"
    using Cons.prems(2) by auto
  have f': "root_min_loop child board (mv # ys) vf mf = root_min_loop child board ys ?vf' ?mf'"
    unfolding f by simp
  have g': "root_min_loop child board (mv # ys) vc mc = root_min_loop child board ys ?vc' ?mc'"
    unfolding g by simp
  show ?case
    unfolding f' g' by (rule Cons.IH [OF vs r])
qed

lemma root_min_loop_chunk:
  assumes c: "\<And>b'. snd (child b') = b'"
    and ne: "ch \<noteq> []" and v: "\<forall>mv\<in>set ch. moveType mv \<noteq> invalid"
    and le: "\<forall>mv\<in>set ch. fst (child (move board mv)) \<le> u" and m: "mV \<le> u"
  shows "(if fst (snd (root_min_loop child board ch u d0)) \<le> mV
          then (fst (root_min_loop child board ch u d0), fst (snd (root_min_loop child board ch u d0)))
          else (bm, mV))
       = (fst (root_min_loop child board ch mV bm), fst (snd (root_min_loop child board ch mV bm)))"
proof -
  obtain mv ys where ch: "ch = mv # ys" using ne by (cases ch) auto
  have vm: "moveType mv \<noteq> invalid" and vs: "\<forall>mv\<in>set ys. moveType mv \<noteq> invalid"
    using v ch by simp_all
  define x where "x = fst (child (move board mv))"
  have xu: "x \<le> u" using le ch by (simp add: x_def)
  have f: "root_min_loop child board ch u d0 = root_min_loop child board ys x mv"
    unfolding ch using xu root_min_loop_Cons [OF c vm, of board ys u d0] by (simp add: x_def)
  have g: "root_min_loop child board ch mV bm =
      root_min_loop child board ys (if x \<le> mV then x else mV) (if x \<le> mV then mv else bm)"
    unfolding ch using root_min_loop_Cons [OF c vm, of board ys mV bm] by (simp add: x_def)
  have r: "(x \<le> mV \<longrightarrow> (if x \<le> mV then x else mV) = x \<and> (if x \<le> mV then mv else bm) = mv)
      \<and> (mV < x \<longrightarrow> (if x \<le> mV then x else mV) = mV \<and> (if x \<le> mV then mv else bm) = bm)"
    by auto
  show ?thesis
    using root_min_loop_rel [OF c vs r] unfolding f g by (auto simp: not_le)
qed

lemma red_min_chunks:
  assumes c: "\<And>b'. snd (child b') = b'"
  shows "\<forall>ch\<in>set chunks. ch \<noteq> [] \<and> (\<forall>mv\<in>set ch. moveType mv \<noteq> invalid
        \<and> fst (child (move board mv)) \<le> u) \<Longrightarrow> mV \<le> u \<Longrightarrow>
    red_min (map (\<lambda>ch. (fst (root_min_loop child board ch u d0),
                         fst (snd (root_min_loop child board ch u d0)))) chunks) (bm, mV)
      = (fst (root_min_loop child board (concat chunks) mV bm),
         fst (snd (root_min_loop child board (concat chunks) mV bm)))"
proof (induction chunks arbitrary: bm mV)
  case Nil
  show ?case by simp
next
  case (Cons ch chunks)
  have ne: "ch \<noteq> []" and v: "\<forall>mv\<in>set ch. moveType mv \<noteq> invalid"
    and le: "\<forall>mv\<in>set ch. fst (child (move board mv)) \<le> u"
    using Cons.prems(1) by simp_all
  have rest: "\<forall>ch\<in>set chunks. ch \<noteq> [] \<and> (\<forall>mv\<in>set ch. moveType mv \<noteq> invalid
        \<and> fst (child (move board mv)) \<le> u)"
    using Cons.prems(1) by simp
  let ?F = "root_min_loop child board ch u d0" and ?G = "root_min_loop child board ch mV bm"
  have k: "(if fst (snd ?F) \<le> mV then (fst ?F, fst (snd ?F)) else (bm, mV)) = (fst ?G, fst (snd ?G))"
    by (rule root_min_loop_chunk [OF c ne v le Cons.prems(2)])
  have gu: "fst (snd ?G) \<le> u"
    using root_min_loop_le [OF c v, of board mV bm] Cons.prems(2) by simp
  have "red_min (map (\<lambda>ch. (fst (root_min_loop child board ch u d0),
                         fst (snd (root_min_loop child board ch u d0)))) (ch # chunks)) (bm, mV)
      = red_min (map (\<lambda>ch. (fst (root_min_loop child board ch u d0),
                         fst (snd (root_min_loop child board ch u d0)))) chunks)
          (if fst (snd ?F) \<le> mV then (fst ?F, fst (snd ?F)) else (bm, mV))"
    by simp
  also have "\<dots> = red_min (map (\<lambda>ch. (fst (root_min_loop child board ch u d0),
                         fst (snd (root_min_loop child board ch u d0)))) chunks) (fst ?G, fst (snd ?G))"
    unfolding k by (rule refl)
  also have "\<dots> = (fst (root_min_loop child board (concat chunks) (fst (snd ?G)) (fst ?G)),
         fst (snd (root_min_loop child board (concat chunks) (fst (snd ?G)) (fst ?G))))"
    by (rule Cons.IH [OF rest gu])
  also have "\<dots> = (fst (root_min_loop child board (concat (ch # chunks)) mV bm),
         fst (snd (root_min_loop child board (concat (ch # chunks)) mV bm)))"
    using root_min_loop_append [OF c v, of board "concat chunks" mV bm] by simp
  finally show ?case .
qed

lemma min_index_loop_Some: "min_index_loop vs i mV (Some j) \<noteq> None"
  by (induction vs arbitrary: i mV j) simp_all

lemma min_index_loop_red:
  "length ms = i + length rs \<Longrightarrow> \<forall>k<length rs. ms ! (i + k) = fst (rs ! k) \<Longrightarrow>
   (case ix of None \<Rightarrow> True | Some j \<Rightarrow> ms ! j = bm) \<Longrightarrow>
   (case min_index_loop (map snd rs) i mV ix of
      None \<Rightarrow> True
    | Some j \<Rightarrow> ix = None \<and> rs = [] \<or> ms ! j = fst (red_min rs (bm, mV)))"
proof (induction rs arbitrary: i mV ix bm)
  case Nil
  then show ?case by (cases ix) simp_all
next
  case (Cons r rs)
  obtain m v where r: "r = (m, v)" by (cases r)
  have mi: "ms ! i = m" using Cons.prems(2) r by (auto dest: spec [of _ 0])
  have l: "length ms = (i + 1) + length rs" using Cons.prems(1) by simp
  have n: "\<forall>k<length rs. ms ! ((i + 1) + k) = fst (rs ! k)"
  proof (intro allI impI)
    fix k assume "k < length rs"
    then have "ms ! (i + Suc k) = fst ((r # rs) ! Suc k)"
      using Cons.prems(2) by (auto simp del: nth_Cons_Suc)
    then show "ms ! ((i + 1) + k) = fst (rs ! k)" by simp
  qed
  show ?case
  proof (cases "v \<le> mV")
    case True
    have "case min_index_loop (map snd rs) (i + 1) v (Some i) of None \<Rightarrow> True
        | Some j \<Rightarrow> Some i = None \<and> rs = [] \<or> ms ! j = fst (red_min rs (m, v))"
      by (rule Cons.IH [OF l n]) (simp add: mi)
    then show ?thesis
      using True unfolding r by (auto split: option.splits)
  next
    case False
    have "case min_index_loop (map snd rs) (i + 1) mV ix of None \<Rightarrow> True
        | Some j \<Rightarrow> ix = None \<and> rs = [] \<or> ms ! j = fst (red_min rs (bm, mV))"
      by (rule Cons.IH [OF l n Cons.prems(3)])
    then show ?thesis
      using False unfolding r by (auto split: option.splits)
  qed
qed

lemma split_loop_chunks:
  "0 < L \<Longrightarrow> (counter + k) * L < length vec \<Longrightarrow>
     \<exists>chunks. split_loop vec L counter k result = Inr (result @ chunks)
       \<and> concat chunks = drop (counter * L) vec \<and> chunks \<noteq> [] \<and> (\<forall>c\<in>set chunks. c \<noteq> [])"
proof (induction k arbitrary: counter result)
  case 0
  then show ?case by simp
next
  case (Suc k)
  have le: "counter * L + L \<le> length vec"
  proof -
    have a: "counter * L \<le> (counter + k) * L"
      by (rule mult_le_mono1) simp
    have e: "(counter + Suc k) * L = (counter + k) * L + L"
      by simp
    show ?thesis using a e Suc.prems(2) by linarith
  qed
  have lt: "(counter + 1 + k) * L < length vec"
    using Suc.prems(2) by simp
  let ?c = "take L (drop (counter * L) vec)"
  obtain chunks where ch: "split_loop vec L (counter + 1) k (result @ [?c]) = Inr ((result @ [?c]) @ chunks)"
      "concat chunks = drop ((counter + 1) * L) vec" "chunks \<noteq> []" "\<forall>c\<in>set chunks. c \<noteq> []"
    using Suc.IH [OF Suc.prems(1) lt, of "result @ [?c]"] by blast
  have ne: "?c \<noteq> []"
    using le Suc.prems(1) by auto
  have d: "drop ((counter + 1) * L) vec = drop L (drop (counter * L) vec)"
    by (simp add: add.commute)
  have cc: "concat (?c # chunks) = drop (counter * L) vec"
  proof -
    have "concat (?c # chunks) = ?c @ drop L (drop (counter * L) vec)"
      unfolding concat.simps ch(2) d by (rule refl)
    also have "\<dots> = drop (counter * L) vec"
      by (rule append_take_drop_id)
    finally show ?thesis .
  qed
  have "split_loop vec L counter (Suc k) result = Inr (result @ (?c # chunks))"
    using le ch(1) by simp
  then show ?case
    using cc ne ch(4) by (intro exI [of _ "?c # chunks"]) simp
qed

lemma wrap_pred: "0 < k \<Longrightarrow> k < 2 ^ 64 \<Longrightarrow> (k + 2 ^ 64 - 1) mod 2 ^ 64 = k - (1::nat)"
proof -
  assume k: "0 < k" "k < 2 ^ 64"
  then obtain j where j: "k = Suc j" by (cases k) simp_all
  have "k + 2 ^ 64 - 1 = j + 2 ^ 64" unfolding j by simp
  then have "(k + 2 ^ 64 - 1) mod 2 ^ 64 = (j + 2 ^ 64) mod 2 ^ 64" by (simp only:)
  also have "\<dots> = j mod 2 ^ 64" by (simp only: mod_add_self2)
  also have "\<dots> = j" using k unfolding j by (intro mod_less) simp
  finally show ?thesis unfolding j by simp
qed

lemma split_vector_chunks:
  assumes "vec \<noteq> []"
  shows "\<exists>chunks. split_vector vec split_chunk_num = Inr chunks
       \<and> concat chunks = vec \<and> chunks \<noteq> [] \<and> (\<forall>c\<in>set chunks. c \<noteq> [])"
proof (cases "length vec div 32 = 0")
  case True
  then have l: "length vec < 32" by (simp add: div_eq_0_iff)
  have p: "0 < length vec" using assms by simp
  have w: "(length vec + 2 ^ 64 - 1) mod 2 ^ 64 = length vec - 1"
    using p l by (intro wrap_pred) simp_all
  have sv: "split_vector vec split_chunk_num = split_loop vec 1 0 (length vec - 1) []"
    using True w by (simp add: split_vector_def split_chunk_num_def)
  show ?thesis
    using split_loop_chunks [of 1 0 "length vec - 1" vec "[]"] p unfolding sv by simp
next
  case False
  have w: "(32 + 2 ^ 64 - 1) mod 2 ^ 64 = (31::nat)" by simp
  have sv: "split_vector vec split_chunk_num = split_loop vec (length vec div 32) 0 31 []"
    using False w by (simp add: split_vector_def split_chunk_num_def)
  have "32 * (length vec div 32) \<le> length vec" by simp
  then have lt: "(0 + 31) * (length vec div 32) < length vec"
    using False by simp
  show ?thesis
    using split_loop_chunks [of "length vec div 32" 0 31 vec "[]"] False lt unfolding sv by simp
qed

lemma min_max_le_UPPER:
  assumes "bounded_scores ev"
  shows "fst (min_max ev b d LOWER_BOUND UPPER_BOUND isMax) \<le> UPPER_BOUND"
    and "LOWER_BOUND \<le> fst (min_max ev b d LOWER_BOUND UPPER_BOUND isMax)"
  using min_max_full_window [OF assms, of b d isMax] minimax_bounds [OF assms, of b d isMax]
  by simp_all

lemma gen_best_for_parallel_upper:
  assumes bs: "bounded_scores ev" and ne: "gen_moves_for_one_side b upper \<noteq> []"
  shows "gen_best_for_parallel ev b upper d = Inr (fst (gen_best_for ev b upper d))"
proof -
  define child where "child = (\<lambda>b. min_max ev b d LOWER_BOUND UPPER_BOUND True)"
  have c: "\<And>b'. snd (child b') = b'"
    unfolding child_def by (rule min_max_board)
  obtain chunks where sv: "split_vector (gen_moves_for_one_side b upper) split_chunk_num = Inr chunks"
    and cc: "concat chunks = gen_moves_for_one_side b upper"
    and cne: "chunks \<noteq> []" and each: "\<forall>ch\<in>set chunks. ch \<noteq> []"
    using split_vector_chunks [OF ne] by blast
  have ok: "\<forall>ch\<in>set chunks. ch \<noteq> [] \<and> (\<forall>mv\<in>set ch. moveType mv \<noteq> invalid
        \<and> fst (child (move b mv)) \<le> UPPER_BOUND)"
  proof (intro ballI conjI)
    fix ch assume "ch \<in> set chunks"
    then show "ch \<noteq> []" using each by simp
    fix mv assume "mv \<in> set ch"
    then have "mv \<in> set (gen_moves_for_one_side b upper)"
      using \<open>ch \<in> set chunks\<close> cc [symmetric] by auto
    then show "moveType mv \<noteq> invalid" by (rule gen_moves_valid)
    show "fst (child (move b mv)) \<le> UPPER_BOUND"
      unfolding child_def by (rule min_max_le_UPPER [OF bs])
  qed
  define rs where "rs = map (\<lambda>ch. (fst (root_min_loop child b ch UPPER_BOUND Move_default),
      fst (snd (root_min_loop child b ch UPPER_BOUND Move_default)))) chunks"
  have task: "map (task_upper ev b d) chunks = rs"
    by (simp add: rs_def task_upper_def Let_def child_def)
  have red: "red_min rs (Move_default, UPPER_BOUND)
      = (fst (root_min_loop child b (concat chunks) UPPER_BOUND Move_default),
         fst (snd (root_min_loop child b (concat chunks) UPPER_BOUND Move_default)))"
    unfolding rs_def by (rule red_min_chunks [OF c ok]) simp
  obtain ch0 rest where ch: "chunks = ch0 # rest" using cne by (cases chunks) auto
  have v0: "\<forall>mv\<in>set ch0. moveType mv \<noteq> invalid" using ok ch by simp
  have le0: "fst (snd (root_min_loop child b ch0 UPPER_BOUND Move_default)) \<le> UPPER_BOUND"
    by (rule root_min_loop_le [OF c v0])
  have "min_index_loop (map snd rs) 0 UPPER_BOUND None \<noteq> None"
    using le0 min_index_loop_Some unfolding rs_def ch by simp
  then obtain j where j: "min_index_loop (map snd rs) 0 UPPER_BOUND None = Some j" by blast
  have "case min_index_loop (map snd rs) 0 UPPER_BOUND None of None \<Rightarrow> True
      | Some j \<Rightarrow> (None :: nat option) = None \<and> rs = [] \<or> map fst rs ! j = fst (red_min rs (Move_default, UPPER_BOUND))"
    by (rule min_index_loop_red) simp_all
  then have nth: "map fst rs ! j = fst (red_min rs (Move_default, UPPER_BOUND))"
    unfolding j using cne by (simp add: rs_def)
  have "gen_best_for_parallel ev b upper d = Inr (map fst rs ! j)"
    using j by (simp add: gen_best_for_parallel_def sv task Let_def)
  also have "\<dots> = Inr (fst (root_min_loop child b (gen_moves_for_one_side b upper) UPPER_BOUND Move_default))"
    unfolding nth red cc by simp
  also have "\<dots> = Inr (fst (gen_best_for ev b upper d))"
    by (simp add: gen_best_for_def Let_def child_def)
  finally show ?thesis .
qed

lemma root_max_loop_board:
  assumes c: "\<And>b'. snd (child b') = b'"
  shows "\<forall>mv\<in>set mvs. moveType mv \<noteq> invalid \<Longrightarrow>
    snd (snd (root_max_loop child board mvs maxValue bestMove)) = board"
  by (induction mvs arbitrary: maxValue bestMove) (simp_all add: Let_def c undo_move)

lemma root_max_loop_Cons:
  assumes c: "\<And>b'. snd (child b') = b'" and v: "moveType mv \<noteq> invalid"
  shows "root_max_loop child board (mv # mvs) maxValue bestMove =
     (if fst (child (move board mv)) \<ge> maxValue
      then root_max_loop child board mvs (fst (child (move board mv))) mv
      else root_max_loop child board mvs maxValue bestMove)"
  by (simp add: Let_def c undo_move [OF v])

lemma root_max_loop_ge:
  assumes c: "\<And>b'. snd (child b') = b'"
  shows "\<forall>mv\<in>set mvs. moveType mv \<noteq> invalid \<Longrightarrow>
    fst (snd (root_max_loop child board mvs maxValue bestMove)) \<ge> maxValue"
proof (induction mvs arbitrary: maxValue bestMove)
  case Nil
  show ?case by simp
next
  case (Cons mv mvs)
  have v: "moveType mv \<noteq> invalid" and vs: "\<forall>mv\<in>set mvs. moveType mv \<noteq> invalid"
    using Cons.prems by simp_all
  show ?case
    using Cons.IH [OF vs, of "fst (child (move board mv))" mv] Cons.IH [OF vs, of maxValue bestMove]
    unfolding root_max_loop_Cons [OF c v] by auto
qed

lemma root_max_loop_append:
  assumes c: "\<And>b'. snd (child b') = b'"
  shows "\<forall>mv\<in>set xs. moveType mv \<noteq> invalid \<Longrightarrow>
    root_max_loop child board (xs @ ys) maxValue bestMove =
      root_max_loop child board ys
        (fst (snd (root_max_loop child board xs maxValue bestMove)))
        (fst (root_max_loop child board xs maxValue bestMove))"
proof (induction xs arbitrary: maxValue bestMove)
  case Nil
  show ?case by simp
next
  case (Cons mv xs)
  have v: "moveType mv \<noteq> invalid" and vs: "\<forall>mv\<in>set xs. moveType mv \<noteq> invalid"
    using Cons.prems by simp_all
  show ?case
    using Cons.IH [OF vs]
    unfolding append_Cons root_max_loop_Cons [OF c v] by simp
qed

lemma root_max_loop_rel:
  assumes c: "\<And>b'. snd (child b') = b'"
  shows "\<forall>mv\<in>set ys. moveType mv \<noteq> invalid \<Longrightarrow>
    (vf \<ge> mV \<longrightarrow> vc = vf \<and> mc = mf) \<and> (mV > vf \<longrightarrow> vc = mV \<and> mc = bm) \<Longrightarrow>
    (fst (snd (root_max_loop child board ys vf mf)) \<ge> mV \<longrightarrow>
       fst (snd (root_max_loop child board ys vc mc)) = fst (snd (root_max_loop child board ys vf mf))
       \<and> fst (root_max_loop child board ys vc mc) = fst (root_max_loop child board ys vf mf))
    \<and> (mV > fst (snd (root_max_loop child board ys vf mf)) \<longrightarrow>
       fst (snd (root_max_loop child board ys vc mc)) = mV
       \<and> fst (root_max_loop child board ys vc mc) = bm)"
proof (induction ys arbitrary: vf mf vc mc)
  case Nil
  then show ?case by simp
next
  case (Cons mv ys)
  have v: "moveType mv \<noteq> invalid" and vs: "\<forall>mv\<in>set ys. moveType mv \<noteq> invalid"
    using Cons.prems(1) by simp_all
  define x where "x = fst (child (move board mv))"
  have f: "root_max_loop child board (mv # ys) vf mf =
      (if x \<ge> vf then root_max_loop child board ys x mv else root_max_loop child board ys vf mf)"
    unfolding x_def by (rule root_max_loop_Cons [OF c v])
  have g: "root_max_loop child board (mv # ys) vc mc =
      (if x \<ge> vc then root_max_loop child board ys x mv else root_max_loop child board ys vc mc)"
    unfolding x_def by (rule root_max_loop_Cons [OF c v])
  let ?vf' = "if x \<ge> vf then x else vf" and ?mf' = "if x \<ge> vf then mv else mf"
  let ?vc' = "if x \<ge> vc then x else vc" and ?mc' = "if x \<ge> vc then mv else mc"
  have r: "(?vf' \<ge> mV \<longrightarrow> ?vc' = ?vf' \<and> ?mc' = ?mf') \<and> (mV > ?vf' \<longrightarrow> ?vc' = mV \<and> ?mc' = bm)"
    using Cons.prems(2) by auto
  have f': "root_max_loop child board (mv # ys) vf mf = root_max_loop child board ys ?vf' ?mf'"
    unfolding f by simp
  have g': "root_max_loop child board (mv # ys) vc mc = root_max_loop child board ys ?vc' ?mc'"
    unfolding g by simp
  show ?case
    unfolding f' g' by (rule Cons.IH [OF vs r])
qed

lemma root_max_loop_chunk:
  assumes c: "\<And>b'. snd (child b') = b'"
    and ne: "ch \<noteq> []" and v: "\<forall>mv\<in>set ch. moveType mv \<noteq> invalid"
    and le: "\<forall>mv\<in>set ch. fst (child (move board mv)) \<ge> u" and m: "mV \<ge> u"
  shows "(if fst (snd (root_max_loop child board ch u d0)) \<ge> mV
          then (fst (root_max_loop child board ch u d0), fst (snd (root_max_loop child board ch u d0)))
          else (bm, mV))
       = (fst (root_max_loop child board ch mV bm), fst (snd (root_max_loop child board ch mV bm)))"
proof -
  obtain mv ys where ch: "ch = mv # ys" using ne by (cases ch) auto
  have vm: "moveType mv \<noteq> invalid" and vs: "\<forall>mv\<in>set ys. moveType mv \<noteq> invalid"
    using v ch by simp_all
  define x where "x = fst (child (move board mv))"
  have xu: "x \<ge> u" using le ch by (simp add: x_def)
  have f: "root_max_loop child board ch u d0 = root_max_loop child board ys x mv"
    unfolding ch using xu root_max_loop_Cons [OF c vm, of board ys u d0] by (simp add: x_def)
  have g: "root_max_loop child board ch mV bm =
      root_max_loop child board ys (if x \<ge> mV then x else mV) (if x \<ge> mV then mv else bm)"
    unfolding ch using root_max_loop_Cons [OF c vm, of board ys mV bm] by (simp add: x_def)
  have r: "(x \<ge> mV \<longrightarrow> (if x \<ge> mV then x else mV) = x \<and> (if x \<ge> mV then mv else bm) = mv)
      \<and> (mV > x \<longrightarrow> (if x \<ge> mV then x else mV) = mV \<and> (if x \<ge> mV then mv else bm) = bm)"
    by auto
  show ?thesis
    using root_max_loop_rel [OF c vs r] unfolding f g by (auto simp: not_le)
qed

lemma red_max_chunks:
  assumes c: "\<And>b'. snd (child b') = b'"
  shows "\<forall>ch\<in>set chunks. ch \<noteq> [] \<and> (\<forall>mv\<in>set ch. moveType mv \<noteq> invalid
        \<and> fst (child (move board mv)) \<ge> u) \<Longrightarrow> mV \<ge> u \<Longrightarrow>
    red_max (map (\<lambda>ch. (fst (root_max_loop child board ch u d0),
                         fst (snd (root_max_loop child board ch u d0)))) chunks) (bm, mV)
      = (fst (root_max_loop child board (concat chunks) mV bm),
         fst (snd (root_max_loop child board (concat chunks) mV bm)))"
proof (induction chunks arbitrary: bm mV)
  case Nil
  show ?case by simp
next
  case (Cons ch chunks)
  have ne: "ch \<noteq> []" and v: "\<forall>mv\<in>set ch. moveType mv \<noteq> invalid"
    and le: "\<forall>mv\<in>set ch. fst (child (move board mv)) \<ge> u"
    using Cons.prems(1) by simp_all
  have rest: "\<forall>ch\<in>set chunks. ch \<noteq> [] \<and> (\<forall>mv\<in>set ch. moveType mv \<noteq> invalid
        \<and> fst (child (move board mv)) \<ge> u)"
    using Cons.prems(1) by simp
  let ?F = "root_max_loop child board ch u d0" and ?G = "root_max_loop child board ch mV bm"
  have k: "(if fst (snd ?F) \<ge> mV then (fst ?F, fst (snd ?F)) else (bm, mV)) = (fst ?G, fst (snd ?G))"
    by (rule root_max_loop_chunk [OF c ne v le Cons.prems(2)])
  have gu: "fst (snd ?G) \<ge> u"
    using root_max_loop_ge [OF c v, where board = board and maxValue = mV and bestMove = bm] Cons.prems(2) by simp
  have "red_max (map (\<lambda>ch. (fst (root_max_loop child board ch u d0),
                         fst (snd (root_max_loop child board ch u d0)))) (ch # chunks)) (bm, mV)
      = red_max (map (\<lambda>ch. (fst (root_max_loop child board ch u d0),
                         fst (snd (root_max_loop child board ch u d0)))) chunks)
          (if fst (snd ?F) \<ge> mV then (fst ?F, fst (snd ?F)) else (bm, mV))"
    by simp
  also have "\<dots> = red_max (map (\<lambda>ch. (fst (root_max_loop child board ch u d0),
                         fst (snd (root_max_loop child board ch u d0)))) chunks) (fst ?G, fst (snd ?G))"
    unfolding k by (rule refl)
  also have "\<dots> = (fst (root_max_loop child board (concat chunks) (fst (snd ?G)) (fst ?G)),
         fst (snd (root_max_loop child board (concat chunks) (fst (snd ?G)) (fst ?G))))"
    by (rule Cons.IH [OF rest gu])
  also have "\<dots> = (fst (root_max_loop child board (concat (ch # chunks)) mV bm),
         fst (snd (root_max_loop child board (concat (ch # chunks)) mV bm)))"
    using root_max_loop_append [OF c v, of board "concat chunks" mV bm] by simp
  finally show ?case .
qed

lemma max_index_loop_Some: "max_index_loop vs i mV (Some j) \<noteq> None"
  by (induction vs arbitrary: i mV j) simp_all

lemma max_index_loop_red:
  "length ms = i + length rs \<Longrightarrow> \<forall>k<length rs. ms ! (i + k) = fst (rs ! k) \<Longrightarrow>
   (case ix of None \<Rightarrow> True | Some j \<Rightarrow> ms ! j = bm) \<Longrightarrow>
   (case max_index_loop (map snd rs) i mV ix of
      None \<Rightarrow> True
    | Some j \<Rightarrow> ix = None \<and> rs = [] \<or> ms ! j = fst (red_max rs (bm, mV)))"
proof (induction rs arbitrary: i mV ix bm)
  case Nil
  then show ?case by (cases ix) simp_all
next
  case (Cons r rs)
  obtain m v where r: "r = (m, v)" by (cases r)
  have mi: "ms ! i = m" using Cons.prems(2) r by (auto dest: spec [of _ 0])
  have l: "length ms = (i + 1) + length rs" using Cons.prems(1) by simp
  have n: "\<forall>k<length rs. ms ! ((i + 1) + k) = fst (rs ! k)"
  proof (intro allI impI)
    fix k assume "k < length rs"
    then have "ms ! (i + Suc k) = fst ((r # rs) ! Suc k)"
      using Cons.prems(2) by (auto simp del: nth_Cons_Suc)
    then show "ms ! ((i + 1) + k) = fst (rs ! k)" by simp
  qed
  show ?case
  proof (cases "v \<ge> mV")
    case True
    have "case max_index_loop (map snd rs) (i + 1) v (Some i) of None \<Rightarrow> True
        | Some j \<Rightarrow> Some i = None \<and> rs = [] \<or> ms ! j = fst (red_max rs (m, v))"
      by (rule Cons.IH [OF l n]) (simp add: mi)
    then show ?thesis
      using True unfolding r by (auto split: option.splits)
  next
    case False
    have "case max_index_loop (map snd rs) (i + 1) mV ix of None \<Rightarrow> True
        | Some j \<Rightarrow> ix = None \<and> rs = [] \<or> ms ! j = fst (red_max rs (bm, mV))"
      by (rule Cons.IH [OF l n Cons.prems(3)])
    then show ?thesis
      using False unfolding r by (auto split: option.splits)
  qed
qed

lemma gen_best_for_parallel_down:
  assumes bs: "bounded_scores ev" and ne: "gen_moves_for_one_side b down \<noteq> []"
  shows "gen_best_for_parallel ev b down d = Inr (fst (gen_best_for ev b down d))"
proof -
  define child where "child = (\<lambda>b. min_max ev b d LOWER_BOUND UPPER_BOUND False)"
  have c: "\<And>b'. snd (child b') = b'"
    unfolding child_def by (rule min_max_board)
  obtain chunks where sv: "split_vector (gen_moves_for_one_side b down) split_chunk_num = Inr chunks"
    and cc: "concat chunks = gen_moves_for_one_side b down"
    and cne: "chunks \<noteq> []" and each: "\<forall>ch\<in>set chunks. ch \<noteq> []"
    using split_vector_chunks [OF ne] by blast
  have ok: "\<forall>ch\<in>set chunks. ch \<noteq> [] \<and> (\<forall>mv\<in>set ch. moveType mv \<noteq> invalid
        \<and> fst (child (move b mv)) \<ge> LOWER_BOUND)"
  proof (intro ballI conjI)
    fix ch assume "ch \<in> set chunks"
    then show "ch \<noteq> []" using each by simp
    fix mv assume "mv \<in> set ch"
    then have "mv \<in> set (gen_moves_for_one_side b down)"
      using \<open>ch \<in> set chunks\<close> cc [symmetric] by auto
    then show "moveType mv \<noteq> invalid" by (rule gen_moves_valid)
    show "fst (child (move b mv)) \<ge> LOWER_BOUND"
      unfolding child_def by (rule min_max_le_UPPER(2) [OF bs])
  qed
  define rs where "rs = map (\<lambda>ch. (fst (root_max_loop child b ch LOWER_BOUND Move_default),
      fst (snd (root_max_loop child b ch LOWER_BOUND Move_default)))) chunks"
  have task: "map (task_down ev b d) chunks = rs"
    by (simp add: rs_def task_down_def Let_def child_def)
  have red: "red_max rs (Move_default, LOWER_BOUND)
      = (fst (root_max_loop child b (concat chunks) LOWER_BOUND Move_default),
         fst (snd (root_max_loop child b (concat chunks) LOWER_BOUND Move_default)))"
    unfolding rs_def by (rule red_max_chunks [OF c ok]) simp
  obtain ch0 rest where ch: "chunks = ch0 # rest" using cne by (cases chunks) auto
  have v0: "\<forall>mv\<in>set ch0. moveType mv \<noteq> invalid" using ok ch by simp
  have le0: "fst (snd (root_max_loop child b ch0 LOWER_BOUND Move_default)) \<ge> LOWER_BOUND"
    by (rule root_max_loop_ge [OF c v0])
  have "max_index_loop (map snd rs) 0 LOWER_BOUND None \<noteq> None"
    using le0 max_index_loop_Some unfolding rs_def ch by simp
  then obtain j where j: "max_index_loop (map snd rs) 0 LOWER_BOUND None = Some j" by blast
  have "case max_index_loop (map snd rs) 0 LOWER_BOUND None of None \<Rightarrow> True
      | Some j \<Rightarrow> (None :: nat option) = None \<and> rs = [] \<or> map fst rs ! j = fst (red_max rs (Move_default, LOWER_BOUND))"
    by (rule max_index_loop_red) simp_all
  then have nth: "map fst rs ! j = fst (red_max rs (Move_default, LOWER_BOUND))"
    unfolding j using cne by (simp add: rs_def)
  have "gen_best_for_parallel ev b down d = Inr (map fst rs ! j)"
    using j by (simp add: gen_best_for_parallel_def sv task Let_def)
  also have "\<dots> = Inr (fst (root_max_loop child b (gen_moves_for_one_side b down) LOWER_BOUND Move_default))"
    unfolding nth red cc by simp
  also have "\<dots> = Inr (fst (gen_best_for ev b down d))"
    by (simp add: gen_best_for_def Let_def child_def)
  finally show ?thesis .
qed

text \<open>
  On a root list that is not empty, with scores between \<^verbatim>\<open>LOWER_BOUND\<close> and
  \<^verbatim>\<open>UPPER_BOUND\<close>, the parallel search returns the very move the sequential search
  returns, hence a move of the same value.
\<close>

lemma gen_best_for_parallel_eq:
  assumes "bounded_scores ev" and "gen_moves_for_one_side b s \<noteq> []" and "s = upper \<or> s = down"
  shows "gen_best_for_parallel ev b s d = Inr (fst (gen_best_for ev b s d))"
  using assms gen_best_for_parallel_upper [of ev b d] gen_best_for_parallel_down [of ev b d]
  by auto

lemma gen_best_for_parallel_eq_start:
  "gen_best_for_parallel (\<lambda>b. 0) reset upper d = Inr (fst (gen_best_for (\<lambda>b. 0) reset upper d))"
proof -
  have b: "bounded_scores (\<lambda>b. 0)"
    by (simp add: bounded_scores_def LOWER_BOUND_def UPPER_BOUND_def)
  have "mv_of 3 2 4 2 normal \<in> set (gen_cell reset upper [] (3, 2))"
    by code_simp
  then have "mv_of 3 2 4 2 normal \<in> set (gen_moves_for_one_side reset upper)"
    using gen_moves_for_one_side_cell [of 3 2 _ _ upper]
    by (simp add: line_begin_def line_end_def)
  then have ne: "gen_moves_for_one_side reset upper \<noteq> []"
    by auto
  show ?thesis
    by (rule gen_best_for_parallel_eq [OF b ne]) simp
qed

text \<open>
  C3 at a board on which the down side has no piece: the root list is empty. The
  sequential search returns the default move. The parallel search returns no move at
  all: \<^verbatim>\<open>split_vector\<close> leaves the range of the empty list in the first pass of its loop
  (the wrap-around of \<^verbatim>\<open>chunkNum - 1\<close>, see C8), before any task is started. So there is
  no move of the parallel search whose value could equal the value of the move of the
  sequential search.
\<close>

theorem gen_best_for_parallel_no_result:
  "gen_moves_for_one_side board_c3 down = []
   \<and> fst (gen_best_for ev board_c3 down d) = Move_default
   \<and> (\<forall>m. gen_best_for_parallel ev board_c3 down d \<noteq> Inr m)"
proof -
  have e: "gen_moves_for_one_side board_c3 down = []"
    by code_simp
  have s: "gen_best_for ev board_c3 down d = (Move_default, board_c3)"
    by (rule gen_best_for_empty [OF e]) simp
  have p: "gen_best_for_parallel ev board_c3 down d = Inl OutOfRange"
    by (rule gen_best_for_parallel_empty [OF e]) simp
  show ?thesis
    using e s p by simp
qed

end
